theory Spec2Isabelle
  imports Main "HOL-Library.AList"
begin

section \<open>The immutable map\<close>

text \<open>
  \<^verbatim>\<open>src/core/Provider.ts\<close> imports \<^verbatim>\<open>mCreate, mGet, mSet, mDel, mKeys, mMerge\<close> from
  \<^verbatim>\<open>./immutableMap\<close>, a file that is not among the sources. The map is an association
  list: \<open>mGet\<close> answers \<open>None\<close> for the "not found" sentinel (\<^verbatim>\<open>undefined\<close>).
\<close>

type_synonym ('k, 'v) ImmutableMap = "('k \<times> 'v) list"

text \<open>Modelled from the spec: \<^verbatim>\<open>create()\<close> of immutableMap.ts, the empty map.\<close>

definition mCreate :: "('k, 'v) ImmutableMap" where
  "mCreate = []"

text \<open>Modelled from the spec: \<^verbatim>\<open>get(map, key)\<close> of immutableMap.ts; absent keys return
  the sentinel "not found".\<close>

definition mGet :: "('k, 'v) ImmutableMap \<Rightarrow> 'k \<Rightarrow> 'v option" where
  "mGet m k = map_of m k"

text \<open>Modelled from the spec: \<^verbatim>\<open>set(map, key, value) -> newMap\<close> of immutableMap.ts.\<close>

definition mSet :: "('k, 'v) ImmutableMap \<Rightarrow> 'k \<Rightarrow> 'v \<Rightarrow> ('k, 'v) ImmutableMap" where
  "mSet m k v = AList.update k v m"

text \<open>Modelled from the spec: \<^verbatim>\<open>delete(map, key) -> newMap\<close> of immutableMap.ts.\<close>

definition mDel :: "('k, 'v) ImmutableMap \<Rightarrow> 'k \<Rightarrow> ('k, 'v) ImmutableMap" where
  "mDel m k = AList.delete k m"

text \<open>Modelled from the spec: \<^verbatim>\<open>keys(map) -> sequence\<close> of immutableMap.ts.\<close>

definition mKeys :: "('k, 'v) ImmutableMap \<Rightarrow> 'k list" where
  "mKeys m = map fst m"

text \<open>Modelled from the spec: \<^verbatim>\<open>merge(mapA, mapB) -> newMap\<close> (right-biased) of
  immutableMap.ts.\<close>

definition mMerge :: "('k, 'v) ImmutableMap \<Rightarrow> ('k, 'v) ImmutableMap \<Rightarrow> ('k, 'v) ImmutableMap" where
  "mMerge a b = AList.merge a b"

section \<open>Atoms and their state\<close>

text \<open>
  An atom is an object compared by reference (\<^verbatim>\<open>a === atom\<close>); its identity is a number here.
  A promise is compared by reference too (\<^verbatim>\<open>prevPromise !== atomState.readP\<close>) and is a
  number as well. A JavaScript value is \<open>Undefined\<close> or a number.
\<close>

type_synonym atom = nat
type_synonym promise = nat

datatype Value = Undefined | Num int

text \<open>An \<^verbatim>\<open>Error\<close> object: one that was thrown as such, or \<^verbatim>\<open>new Error(x)\<close> made from a
  thrown value that is neither an error nor a promise.\<close>

datatype Error = Error string | NewError Value

text \<open>What a \<^verbatim>\<open>throw\<close> carries: a promise, an \<^verbatim>\<open>Error\<close> or another value.\<close>

datatype thrown = TPromise promise | TError Error | TOther Value

text \<open>What a promise is rejected with (\<^verbatim>\<open>e instanceof Error ? e : new Error(e)\<close>).\<close>

datatype reason = RError Error | ROther Value

fun toError :: "reason \<Rightarrow> Error" where
  "toError (RError e) = e"
| "toError (ROther v) = NewError v"

text \<open>\<^verbatim>\<open>AtomState\<close>, lines 66-72. \<open>deps\<close> is a JavaScript \<^verbatim>\<open>Set\<close>: a list without
  repetitions in insertion order, the order \<^verbatim>\<open>forEach\<close> visits it in.\<close>

record atomState =
  readE :: "Error option"
  readP :: "promise option"
  writeP :: "promise option"
  val :: Value
  deps :: "atom list"

type_synonym State = "(atom, atomState) ImmutableMap"

definition initialState :: State where
  "initialState = mCreate"

text \<open>\<^verbatim>\<open>{ deps: new Set() }\<close>, line 113: every other field is absent.\<close>

definition newAtomState :: atomState where
  "newAtomState = \<lparr>readE = None, readP = None, writeP = None, val = Undefined, deps = []\<rparr>"

text \<open>\<^verbatim>\<open>Partial<AtomState>\<close>: a field is \<open>None\<close> when the object literal has no such key, and
  \<open>Some x\<close> when it has the key with value \<open>x\<close> (where \<open>x\<close> itself may be \<^verbatim>\<open>undefined\<close>).\<close>

record partial =
  readE' :: "Error option option"
  readP' :: "promise option option"
  writeP' :: "promise option option"
  val' :: "Value option"

text \<open>The object spread \<^verbatim>\<open>{ ...atomState, ...partial }\<close>.\<close>

definition spread :: "atomState \<Rightarrow> partial \<Rightarrow> atomState" where
  "spread st p =
     \<lparr>readE = (case readE' p of None \<Rightarrow> readE st | Some x \<Rightarrow> x),
      readP = (case readP' p of None \<Rightarrow> readP st | Some x \<Rightarrow> x),
      writeP = (case writeP' p of None \<Rightarrow> writeP st | Some x \<Rightarrow> x),
      val = (case val' p of None \<Rightarrow> val st | Some x \<Rightarrow> x),
      deps = deps st\<rparr>"

text \<open>\<^verbatim>\<open>new Set(s).add(x)\<close> and \<^verbatim>\<open>s.delete(x)\<close> on a copy.\<close>

definition setAdd :: "atom list \<Rightarrow> atom \<Rightarrow> atom list" where
  "setAdd s x = (if x \<in> set s then s else s @ [x])"

definition setDelete :: "atom list \<Rightarrow> atom \<Rightarrow> atom list" where
  "setDelete s x = removeAll x s"

text \<open>The atoms' descriptors (\<^verbatim>\<open>./types\<close> is not among the sources): \<open>initOf\<close> is \<^verbatim>\<open>atom.init\<close>
  (\<open>Undefined\<close> for a derived atom), \<open>readOf\<close> and \<open>writeOf\<close> are the bodies of \<^verbatim>\<open>atom.read\<close> and
  \<^verbatim>\<open>atom.write\<close>, given below as trees of the calls they make.\<close>

text \<open>The body of a read function, up to the moment it returns: it calls \<^verbatim>\<open>get(a)\<close> and goes
  on with the value, it returns a value, it returns a promise, or it throws. A body does not
  catch what \<^verbatim>\<open>get\<close> throws, and calls \<^verbatim>\<open>get\<close> only before it returns.\<close>

datatype rd = Ret Value | RetPromise | Throw thrown | Get atom "Value \<Rightarrow> rd"

text \<open>The body of a write function, up to the moment it returns: \<^verbatim>\<open>get(a)\<close>, \<^verbatim>\<open>set(a, v)\<close>,
  returning nothing, returning a promise, or throwing. A body does not catch what \<^verbatim>\<open>set\<close>
  throws, and calls \<^verbatim>\<open>get\<close> and \<^verbatim>\<open>set\<close> only before it returns.\<close>

datatype wr = WDone | WRetPromise | WThrow thrown | WGet atom "Value \<Rightarrow> wr" | WSet atom Value wr

record defs =
  initOf :: "atom \<Rightarrow> Value"
  readOf :: "atom \<Rightarrow> rd"
  writeOf :: "atom \<Rightarrow> Value \<Rightarrow> wr"

section \<open>Promises and callbacks\<close>

text \<open>An element of \<^verbatim>\<open>pendingPromises\<close>: a promise that is still to settle, or the promise of
  lines 435-439 that is rejected when it is made.\<close>

datatype pend = Pending promise | Rejected thrown

text \<open>
  The callbacks the engine registers on promises. Running them is the event loop's part;
  the engine only registers them.
  \<^item> \<open>ReadSettles p atom ds\<close>, lines 228-255: \<^verbatim>\<open>atom.read\<close> returned a promise; \<open>p\<close> is
    \<^verbatim>\<open>promiseOrValue.then(..).catch(..)\<close>, stored as \<^verbatim>\<open>readP\<close>, and \<open>ds\<close> the dependencies
    collected by the call.
  \<^item> \<open>ThenUpdateDependents p dependent\<close>, lines 318-320.
  \<^item> \<open>ThenWrite w q wid atom update\<close>, lines 364-366: \<open>q\<close> is \<^verbatim>\<open>prevAtomState.writeP.then(..)\<close>
    for the write promise \<open>w\<close>.
  \<^item> \<open>WriteSettles r w wid atom\<close>, lines 423-431: \<^verbatim>\<open>atom.write\<close> returned the promise \<open>r\<close>;
    \<open>w\<close> is \<^verbatim>\<open>promiseOrVoid.then(..)\<close>, stored as \<^verbatim>\<open>writeP\<close>.
  \<open>wid\<close> names the call of \<^verbatim>\<open>writeAtom\<close> whose closure \<^verbatim>\<open>writeAtomState\<close> and whose array
  \<^verbatim>\<open>pendingPromises\<close> the callback belongs to.
\<close>

datatype effect =
    ReadSettles promise atom "atom list"
  | ThenUpdateDependents promise atom
  | ThenWrite promise promise nat atom Value
  | WriteSettles promise promise nat atom

text \<open>What the engine changes besides the snapshot it returns: the promises made so far
  (\<open>nextP\<close> is the next fresh one), the callbacks registered, and the \<^verbatim>\<open>pendingPromises\<close>
  array of every call of \<^verbatim>\<open>writeAtom\<close>.\<close>

record world =
  nextP :: promise
  effs :: "effect list"
  pendingPromises :: "nat \<Rightarrow> pend list"

definition register :: "effect \<Rightarrow> world \<Rightarrow> world" where
  "register e w = w\<lparr>effs := effs w @ [e]\<rparr>"

definition push :: "nat \<Rightarrow> pend \<Rightarrow> world \<Rightarrow> world" where
  "push wid p w = w\<lparr>pendingPromises := (pendingPromises w)(wid := pendingPromises w wid @ [p])\<rparr>"

section \<open>The engine\<close>

text \<open>\<^verbatim>\<open>updateAtomState\<close>, lines 101-119. \<^verbatim>\<open>isNew\<close> only silences a warning.\<close>

definition updateAtomState :: "atom \<Rightarrow> State \<Rightarrow> partial \<Rightarrow> promise option \<Rightarrow> State" where
  "updateAtomState atom prevState part prevPromise =
     (let atomState = (case mGet prevState atom of None \<Rightarrow> newAtomState | Some st \<Rightarrow> st)
      in if prevPromise \<noteq> None \<and> prevPromise \<noteq> readP atomState then prevState
         else mSet prevState atom (spread atomState part))"

text \<open>\<^verbatim>\<open>addDependent\<close>, lines 121-132.\<close>

definition addDependent :: "atom \<Rightarrow> atom \<Rightarrow> State \<Rightarrow> State" where
  "addDependent atom dependent prevState =
     (case mGet prevState atom of
        Some atomState \<Rightarrow>
          if dependent \<notin> set (deps atomState)
          then mSet prevState atom (atomState\<lparr>deps := setAdd (deps atomState) dependent\<rparr>)
          else prevState
      | None \<Rightarrow> prevState)"

text \<open>\<^verbatim>\<open>replaceDependencies\<close>, lines 134-164. The first loop (lines 141-153) visits the keys
  the snapshot had when the loop began.\<close>

primrec dropStale :: "atom \<Rightarrow> atom list \<Rightarrow> State \<Rightarrow> atom list \<Rightarrow> State \<times> atom list" where
  "dropStale atom [] nextState dependencies = (nextState, dependencies)"
| "dropStale atom (a # as) nextState dependencies =
     (case mGet nextState a of
        None \<Rightarrow> dropStale atom as nextState dependencies
      | Some aState \<Rightarrow>
          if atom \<in> set (deps aState) then
            if a \<in> set dependencies
            then dropStale atom as nextState (setDelete dependencies a)
            else dropStale atom as
                   (mSet nextState a (aState\<lparr>deps := setDelete (deps aState) atom\<rparr>)) dependencies
          else dropStale atom as nextState dependencies)"

text \<open>The second loop, lines 154-162.\<close>

primrec addFresh :: "atom \<Rightarrow> atom list \<Rightarrow> State \<Rightarrow> State" where
  "addFresh atom [] nextState = nextState"
| "addFresh atom (a # as) nextState =
     (case mGet nextState a of
        Some aState \<Rightarrow>
          addFresh atom as (mSet nextState a (aState\<lparr>deps := setAdd (deps aState) atom\<rparr>))
      | None \<Rightarrow> addFresh atom as nextState)"

definition replaceDependencies :: "atom \<Rightarrow> State \<Rightarrow> atom list \<Rightarrow> State" where
  "replaceDependencies atom prevState dependenciesToReplace =
     (case dropStale atom (mKeys prevState) prevState dependenciesToReplace of
        (nextState, dependencies) \<Rightarrow> addFresh atom dependencies nextState)"

text \<open>How the call of \<^verbatim>\<open>atom.read\<close> on line 190 ends.\<close>

datatype outcome = Returned Value | ReturnedPromise | Threw thrown

text \<open>The result of \<^verbatim>\<open>readAtomState\<close>: \<^verbatim>\<open>[atomState, nextState]\<close> and the world after it.
  \<open>None\<close> stands for a call that does not return (the recursion below has a bound).\<close>

type_synonym readResult = "((atomState \<times> State) \<times> world) option"

text \<open>The \<^verbatim>\<open>try\<close> block's call of \<^verbatim>\<open>atom.read\<close> with the getter of lines 190-226, while
  \<^verbatim>\<open>isSync\<close> is true and \<^verbatim>\<open>dependencies\<close> is a set. \<open>rec\<close> is the recursive call of
  \<^verbatim>\<open>readAtomState\<close> on line 197.\<close>

primrec runRead ::
  "defs \<Rightarrow> (atom \<Rightarrow> State \<Rightarrow> world \<Rightarrow> readResult) \<Rightarrow> atom \<Rightarrow> rd \<Rightarrow> State \<Rightarrow> atom list \<Rightarrow> world
     \<Rightarrow> (outcome \<times> State \<times> atom list \<times> world) option" where
  "runRead d rec atom (Ret v) nextState dependencies w =
     Some (Returned v, nextState, dependencies, w)"
| "runRead d rec atom RetPromise nextState dependencies w =
     Some (ReturnedPromise, nextState, dependencies, w)"
| "runRead d rec atom (Throw t) nextState dependencies w =
     Some (Threw t, nextState, dependencies, w)"
| "runRead d rec atom (Get a k) nextState dependencies w =
     (if a \<noteq> atom then
        (case rec a nextState w of
           None \<Rightarrow> None
         | Some ((aState, nextNextState), w') \<Rightarrow>
             (case readE aState of
                Some e \<Rightarrow> Some (Threw (TError e), nextNextState, setAdd dependencies a, w')
              | None \<Rightarrow>
                 (case readP aState of
                    Some p \<Rightarrow> Some (Threw (TPromise p), nextNextState, setAdd dependencies a, w')
                  | None \<Rightarrow>
                      runRead d rec atom (k (val aState)) nextNextState
                        (setAdd dependencies a) w')))
      else
        (case mGet nextState a of
           Some aState \<Rightarrow>
             (case readP aState of
                Some p \<Rightarrow> Some (Threw (TPromise p), nextState, setAdd dependencies a, w)
              | None \<Rightarrow>
                  runRead d rec atom (k (val aState)) nextState (setAdd dependencies a) w)
         | None \<Rightarrow> runRead d rec atom (k (initOf d a)) nextState (setAdd dependencies a) w))"

text \<open>Lines 227-287: what \<^verbatim>\<open>readAtomState\<close> does with the outcome of \<^verbatim>\<open>atom.read\<close>.\<close>

definition finishRead ::
  "defs \<Rightarrow> atom \<Rightarrow> outcome \<Rightarrow> State \<Rightarrow> atom list \<Rightarrow> world \<Rightarrow> (atomState \<times> State) \<times> world" where
  "finishRead d atom out nextState dependencies w =
     (let error = (case out of Threw (TError e) \<Rightarrow> Some e
                             | Threw (TOther v) \<Rightarrow> Some (NewError v)
                             | _ \<Rightarrow> None);
          promise = (case out of ReturnedPromise \<Rightarrow> Some (nextP w)
                               | Threw (TPromise p) \<Rightarrow> Some p
                               | _ \<Rightarrow> None);
          value = (case out of Returned v \<Rightarrow> v | _ \<Rightarrow> Undefined);
          flushDependencies = (out \<noteq> ReturnedPromise);
          w1 = (if out = ReturnedPromise
                then register (ReadSettles (nextP w) atom dependencies) (w\<lparr>nextP := Suc (nextP w)\<rparr>)
                else w);
          s1 = updateAtomState atom nextState
                 \<lparr>readE' = Some error, readP' = Some promise, writeP' = None,
                  val' = Some (if promise \<noteq> None then initOf d atom else value)\<rparr> None;
          s2 = (if flushDependencies then replaceDependencies atom s1 dependencies else s1)
      in ((the (mGet s2 atom), s2), w1))"

text \<open>\<^verbatim>\<open>readAtomState\<close>, lines 166-288. The first argument bounds the depth of the recursion
  through \<^verbatim>\<open>get\<close>; \<open>atomStateCache\<close> is \<open>None\<close> when the caller passes no cache.\<close>

primrec readAtomState ::
  "nat \<Rightarrow> defs \<Rightarrow> (atom, atomState) ImmutableMap option \<Rightarrow> atom \<Rightarrow> State \<Rightarrow> world \<Rightarrow> readResult" where
  "readAtomState 0 d atomStateCache atom prevState w = None"
| "readAtomState (Suc n) d atomStateCache atom prevState w =
     (case (case atomStateCache of
              None \<Rightarrow> None
            | Some cache \<Rightarrow>
               (case mGet prevState atom of
                  Some atomState \<Rightarrow> Some (atomState, prevState)
                | None \<Rightarrow>
                   (case mGet cache atom of
                      Some atomState \<Rightarrow> Some (atomState, mSet prevState atom atomState)
                    | None \<Rightarrow> None))) of
        Some r \<Rightarrow> Some (r, w)
      | None \<Rightarrow>
         (case runRead d (readAtomState n d atomStateCache) atom (readOf d atom) prevState [] w of
            None \<Rightarrow> None
          | Some (out, nextState, dependencies, w') \<Rightarrow>
              Some (finishRead d atom out nextState dependencies w')))"

text \<open>The loop of lines 303-325 over \<^verbatim>\<open>atomState.deps\<close>. \<open>rd\<close> is the call of
  \<^verbatim>\<open>readAtomState\<close> on line 311 (without a cache), \<open>rec\<close> the recursive call on line 323.
  The set holds atoms only, so \<^verbatim>\<open>typeof dependent === 'symbol'\<close> is false.\<close>

primrec forEachDependent ::
  "(atom \<Rightarrow> State \<Rightarrow> world \<Rightarrow> readResult) \<Rightarrow> (atom \<Rightarrow> State \<Rightarrow> world \<Rightarrow> (State \<times> world) option)
     \<Rightarrow> atom \<Rightarrow> atom list \<Rightarrow> State \<Rightarrow> world \<Rightarrow> (State \<times> world) option" where
  "forEachDependent rd rec atom [] nextState w = Some (nextState, w)"
| "forEachDependent rd rec atom (dependent # rest) nextState w =
     (if dependent = atom \<or> mGet nextState dependent = None
      then forEachDependent rd rec atom rest nextState w
      else
        (case rd dependent nextState w of
           None \<Rightarrow> None
         | Some ((dependentState, nextNextState), w') \<Rightarrow>
             (case readP dependentState of
                Some promise \<Rightarrow>
                  forEachDependent rd rec atom rest nextNextState
                    (register (ThenUpdateDependents promise dependent) w')
              | None \<Rightarrow>
                  (case rec dependent nextNextState w' of
                     None \<Rightarrow> None
                   | Some (s, w'') \<Rightarrow> forEachDependent rd rec atom rest s w''))))"

text \<open>\<^verbatim>\<open>updateDependentsState\<close>, lines 290-327. The first argument bounds the depth of the
  recursion through the dependents.\<close>

primrec updateDependentsState ::
  "nat \<Rightarrow> defs \<Rightarrow> atom \<Rightarrow> State \<Rightarrow> world \<Rightarrow> (State \<times> world) option" where
  "updateDependentsState 0 d atom prevState w = None"
| "updateDependentsState (Suc n) d atom prevState w =
     (case mGet prevState atom of
        None \<Rightarrow> Some (prevState, w)
      | Some atomState \<Rightarrow>
          forEachDependent (readAtomState (Suc n) d None) (updateDependentsState n d)
            atom (deps atomState) prevState w)"

text \<open>How the call of \<^verbatim>\<open>atom.write\<close> on line 373 ends.\<close>

datatype wout = Void | PromiseReturned | WThrew thrown

text \<open>The result of \<^verbatim>\<open>writeAtomState\<close>: it throws (\<open>Inl\<close>) or returns the next state
  (\<open>Inr\<close>); the world is changed either way.\<close>

type_synonym writeResult = "((thrown \<times> world) + (State \<times> world)) option"

text \<open>The \<^verbatim>\<open>try\<close> block's call of \<^verbatim>\<open>atom.write\<close> with the getter of lines 374-390 and the
  setter of lines 391-420, while \<^verbatim>\<open>isSync\<close> is true. \<open>rec\<close> is the recursive call of
  \<^verbatim>\<open>writeAtomState\<close> on line 415, \<open>upd\<close> the call of \<^verbatim>\<open>updateDependentsState\<close> on line 399.\<close>

primrec runWrite ::
  "defs \<Rightarrow> (State \<Rightarrow> atom \<Rightarrow> Value \<Rightarrow> world \<Rightarrow> writeResult)
     \<Rightarrow> (atom \<Rightarrow> State \<Rightarrow> world \<Rightarrow> (State \<times> world) option)
     \<Rightarrow> atom \<Rightarrow> wr \<Rightarrow> State \<Rightarrow> world \<Rightarrow> (wout \<times> State \<times> world) option" where
  "runWrite d rec upd atom WDone nextState w = Some (Void, nextState, w)"
| "runWrite d rec upd atom WRetPromise nextState w = Some (PromiseReturned, nextState, w)"
| "runWrite d rec upd atom (WThrow t) nextState w = Some (WThrew t, nextState, w)"
| "runWrite d rec upd atom (WGet a k) nextState w =
     runWrite d rec upd atom
       (k (case mGet nextState a of None \<Rightarrow> initOf d a | Some aState \<Rightarrow> val aState))
       nextState w"
| "runWrite d rec upd atom (WSet a v rest) nextState w =
     (if a = atom then
        (case upd a (updateAtomState a nextState
                       \<lparr>readE' = Some None, readP' = Some None, writeP' = None, val' = Some v\<rparr>
                       None) w of
           None \<Rightarrow> None
         | Some (s, w') \<Rightarrow> runWrite d rec upd atom rest s w')
      else
        (case rec nextState a v w of
           None \<Rightarrow> None
         | Some (Inl (t, w')) \<Rightarrow> Some (WThrew t, nextState, w')
         | Some (Inr (s, w')) \<Rightarrow> runWrite d rec upd atom rest s w'))"

text \<open>\<^verbatim>\<open>writeAtomState\<close>, lines 357-446, the closure of the call \<open>wid\<close> of \<^verbatim>\<open>writeAtom\<close>. The
  first argument bounds the depth of the recursion through \<^verbatim>\<open>set\<close>. On line 424 \<open>r\<close> is the
  promise that \<^verbatim>\<open>atom.write\<close> returned.\<close>

primrec writeAtomState ::
  "nat \<Rightarrow> defs \<Rightarrow> nat \<Rightarrow> State \<Rightarrow> atom \<Rightarrow> Value \<Rightarrow> world \<Rightarrow> writeResult" where
  "writeAtomState 0 d wid prevState atom update w = None"
| "writeAtomState (Suc n) d wid prevState atom update w =
     (case (case mGet prevState atom of None \<Rightarrow> None | Some prevAtomState \<Rightarrow> writeP prevAtomState) of
        Some wp \<Rightarrow>
          (let q = nextP w
           in Some (Inr (prevState,
                push wid (Pending q)
                  (register (ThenWrite wp q wid atom update) (w\<lparr>nextP := Suc q\<rparr>)))))
      | None \<Rightarrow>
          (case runWrite d (writeAtomState n d wid) (updateDependentsState (Suc n) d) atom
                  (writeOf d atom update) prevState w of
             None \<Rightarrow> None
           | Some (Void, nextState, w') \<Rightarrow> Some (Inr (nextState, w'))
           | Some (PromiseReturned, nextState, w') \<Rightarrow>
               (let r = nextP w'; wp = Suc r
                in Some (Inr (updateAtomState atom nextState
                                \<lparr>readE' = None, readP' = None, writeP' = Some (Some wp), val' = None\<rparr>
                                None,
                              register (WriteSettles r wp wid atom)
                                (push wid (Pending r) (w'\<lparr>nextP := Suc wp\<rparr>)))))
           | Some (WThrew e, nextState, w') \<Rightarrow>
               (if pendingPromises w' wid \<noteq> []
                then Some (Inr (nextState, push wid (Rejected e) w'))
                else Some (Inl (e, w')))))"

section \<open>The callbacks' state transitions\<close>

text \<open>The updater of lines 232-239, run when the promise that \<^verbatim>\<open>atom.read\<close> returned resolves
  with \<open>value\<close>; \<open>promise\<close> is the atom's \<^verbatim>\<open>readP\<close> of that read.\<close>

definition onReadResolved :: "atom \<Rightarrow> atom list \<Rightarrow> Value \<Rightarrow> promise \<Rightarrow> State \<Rightarrow> State" where
  "onReadResolved atom dependenciesToReplace value promise prev =
     updateAtomState atom (replaceDependencies atom prev dependenciesToReplace)
       \<lparr>readE' = Some None, readP' = Some None, writeP' = None, val' = Some value\<rparr>
       (Some promise)"

text \<open>The updater of lines 244-254, run when that promise rejects with \<open>e\<close>.\<close>

definition onReadRejected :: "atom \<Rightarrow> atom list \<Rightarrow> reason \<Rightarrow> promise \<Rightarrow> State \<Rightarrow> State" where
  "onReadRejected atom dependenciesToReplace e promise prev =
     updateAtomState atom (replaceDependencies atom prev dependenciesToReplace)
       \<lparr>readE' = Some (Some (toError e)), readP' = Some None, writeP' = None, val' = None\<rparr>
       (Some promise)"

text \<open>The write thunk of lines 427-429, queued when the promise that \<^verbatim>\<open>atom.write\<close> returned
  resolves.\<close>

definition clearWriteP :: "atom \<Rightarrow> State \<Rightarrow> State" where
  "clearWriteP atom prev =
     updateAtomState atom prev
       \<lparr>readE' = None, readP' = None, writeP' = Some None, val' = None\<rparr> None"

section \<open>The provider\<close>

text \<open>\<^verbatim>\<open>WriteThunk\<close>, line 89. A thunk made by \<^verbatim>\<open>writeAtom\<close> calls \<^verbatim>\<open>writeAtomState\<close>, so it
  may throw and it changes the world.\<close>

type_synonym WriteThunk = "State \<Rightarrow> world \<Rightarrow> writeResult"

text \<open>\<^verbatim>\<open>SetStateAction<State>\<close>: a state, or an updater run on the previous state.\<close>

datatype SetStateAction = Put State | Apply "State \<Rightarrow> world \<Rightarrow> (State \<times> world) option"

text \<open>
  What one \<^verbatim>\<open>Provider\<close> holds, lines 514-571: \<open>state\<close> is the value of \<^verbatim>\<open>useState\<close> in the
  current render and \<open>setStateOrigCalls\<close> the calls of \<^verbatim>\<open>setStateOrig\<close> that React has not
  yet rendered; \<open>microtasks\<close> counts the callbacks of line 486 that are still to run.
  The two \<^verbatim>\<open>WeakMap\<close>s are association lists, read with \<open>mGet\<close> and written with \<open>mSet\<close>;
  \<open>readPendingMap\<close> is keyed by the state object, here by its contents. A subscriber's
  \<^verbatim>\<open>symbol\<close> is a number.
\<close>

record provider =
  state :: State
  setStateOrigCalls :: "SetStateAction list"
  lastStateRef :: "State option"
  pendingStateRef :: "State option"
  readPendingMap :: "(State, State) ImmutableMap"
  atomStateCache :: "(atom, atomState) ImmutableMap"
  used :: "(atom, nat list) ImmutableMap"
  writeThunkQueue :: "WriteThunk list"
  microtasks :: nat

text \<open>\<^verbatim>\<open>setState\<close>, lines 524-532.\<close>

definition setState :: "SetStateAction \<Rightarrow> provider \<Rightarrow> provider" where
  "setState setStateAction p =
     (let p1 = p\<lparr>lastStateRef := None\<rparr>
      in case pendingStateRef p1 of
           Some pendingState \<Rightarrow>
             p1\<lparr>pendingStateRef := None,
                setStateOrigCalls := setStateOrigCalls p1 @ [Put pendingState, setStateAction]\<rparr>
         | None \<Rightarrow> p1\<lparr>setStateOrigCalls := setStateOrigCalls p1 @ [setStateAction]\<rparr>)"

text \<open>The layout effect of lines 534-541.\<close>

definition layoutEffect :: "provider \<Rightarrow> provider" where
  "layoutEffect p =
     (case mGet (readPendingMap p) (state p) of
        Some pendingState \<Rightarrow> setState (Put pendingState) p
      | None \<Rightarrow> p\<lparr>lastStateRef := Some (state p)\<rparr>)"

text \<open>One pass of the sweep, the \<^verbatim>\<open>forEach\<close> of lines 551-564 over the keys the snapshot had
  when the pass began; the last argument and result is \<^verbatim>\<open>deleted\<close>.\<close>

primrec sweepKeys ::
  "(atom, nat list) ImmutableMap \<Rightarrow> atom list \<Rightarrow> State \<Rightarrow> (atom, atomState) ImmutableMap \<Rightarrow> bool
     \<Rightarrow> State \<times> (atom, atomState) ImmutableMap \<times> bool" where
  "sweepKeys usd [] nextState cache deleted = (nextState, cache, deleted)"
| "sweepKeys usd (a # as) nextState cache deleted =
     (case mGet nextState a of
        None \<Rightarrow> sweepKeys usd as nextState cache deleted
      | Some aState \<Rightarrow>
          if writeP aState \<noteq> None \<or> readP aState \<noteq> None
          then sweepKeys usd as nextState cache deleted
          else
            (let depsSize = length (deps aState);
                 isEmpty = ((depsSize = 0 \<or> (depsSize = 1 \<and> a \<in> set (deps aState))) \<and>
                            (case mGet usd a of None \<Rightarrow> True | Some ids \<Rightarrow> length ids = 0))
             in if isEmpty
                then sweepKeys usd as (mDel nextState a) (mSet cache a aState) True
                else sweepKeys usd as nextState cache deleted))"

text \<open>The \<^verbatim>\<open>do ... while (deleted)\<close> of lines 549-565.\<close>

function sweep ::
  "(atom, nat list) ImmutableMap \<Rightarrow> State \<Rightarrow> (atom, atomState) ImmutableMap
     \<Rightarrow> State \<times> (atom, atomState) ImmutableMap" where
  "sweep usd nextState cache =
     (case sweepKeys usd (mKeys nextState) nextState cache False of
        (s, c, deleted) \<Rightarrow> if deleted then sweep usd s c else (s, c))"
  by pat_completeness auto

termination sweep
proof -
  have less: "length (mDel s a) < length s" if "mGet s a = Some st"
    for s :: State and a st
  proof -
    from that have "(a, st) \<in> set s"
      by (simp add: mGet_def map_of_SomeD)
    then have "length (filter (\<lambda>(k', _). a \<noteq> k') s) < length s"
      by (rule length_filter_less) simp
    then show ?thesis
      by (simp add: mDel_def AList.delete_eq)
  qed
  have len: "length s' \<le> length s \<and> (dl' \<and> \<not> dl \<longrightarrow> length s' < length s)"
    if "sweepKeys usd ks s c dl = (s', c', dl')" for usd ks s c dl s' c' dl'
    using that
  proof (induction ks arbitrary: s c dl)
    case Nil
    then show ?case by auto
  next
    case (Cons a ks)
    show ?case
    proof (cases "sweepKeys usd (a # ks) s c dl = sweepKeys usd ks s c dl")
      case True
      with Cons.prems have "sweepKeys usd ks s c dl = (s', c', dl')" by simp
      from Cons.IH [OF this] show ?thesis .
    next
      case False
      then obtain st where st: "mGet s a = Some st" and step:
        "sweepKeys usd (a # ks) s c dl = sweepKeys usd ks (mDel s a) (mSet c a st) True"
        by (cases "mGet s a") (auto simp: Let_def split: if_splits)
      from Cons.prems step have "sweepKeys usd ks (mDel s a) (mSet c a st) True = (s', c', dl')"
        by simp
      from Cons.IH [OF this] have "length s' \<le> length (mDel s a)" by simp
      with less [OF st] show ?thesis by simp
    qed
  qed
  show ?thesis
    apply (relation "measure (\<lambda>(usd, s, c). length s)")
     apply simp
    apply (auto dest: len [OF sym])
    done
qed

declare sweep.simps [simp del]

text \<open>The effect of lines 544-569. \<^verbatim>\<open>nextState !== lastState\<close> compares the contents.\<close>

definition gcEffect :: "provider \<Rightarrow> provider" where
  "gcEffect p =
     (case lastStateRef p of
        None \<Rightarrow> p
      | Some lastState \<Rightarrow>
          (case sweep (used p) lastState (atomStateCache p) of
             (nextState, cache) \<Rightarrow>
               (let p1 = p\<lparr>atomStateCache := cache\<rparr>
                in if nextState \<noteq> lastState then setState (Put nextState) p1 else p1)))"

text \<open>\<^verbatim>\<open>runWriteThunk\<close>, lines 470-499. The first component of the result is what a thunk
  threw, if one did; \<open>None\<close> for the whole stands for a thunk that does not return.
  \<^verbatim>\<open>nextState !== prevState\<close> compares the contents.\<close>

function runWriteThunk :: "provider \<Rightarrow> world \<Rightarrow> (thrown option \<times> provider \<times> world) option" where
  "runWriteThunk p w =
     (if lastStateRef p = None \<or> writeThunkQueue p = [] then Some (None, p, w)
      else
        (let thunk = hd (writeThunkQueue p);
             p1 = p\<lparr>writeThunkQueue := tl (writeThunkQueue p)\<rparr>;
             prevState = (case pendingStateRef p1 of
                            Some s \<Rightarrow> s
                          | None \<Rightarrow> the (lastStateRef p1))
         in case thunk prevState w of
              None \<Rightarrow> None
            | Some (Inl (e, w')) \<Rightarrow> Some (Some e, p1, w')
            | Some (Inr (nextState, w')) \<Rightarrow>
                if nextState \<noteq> prevState
                then runWriteThunk
                       (p1\<lparr>pendingStateRef := Some nextState, microtasks := Suc (microtasks p1)\<rparr>) w'
                else runWriteThunk p1 w'))"
  by pat_completeness auto
termination
  by (relation "measure (\<lambda>(p, w). length (writeThunkQueue p))") auto

declare runWriteThunk.simps [simp del]

text \<open>The microtask of lines 486-496, once it runs.\<close>

definition publish :: "provider \<Rightarrow> provider" where
  "publish p =
     (let p0 = p\<lparr>microtasks := microtasks p - 1\<rparr>
      in case pendingStateRef p0 of
           Some pendingState \<Rightarrow> setState (Put pendingState) (p0\<lparr>pendingStateRef := None\<rparr>)
         | None \<Rightarrow> p0)"

text \<open>The function that \<^verbatim>\<open>write\<close> passes as \<^verbatim>\<open>addWriteThunk\<close>, lines 605-619.\<close>

definition addWriteThunk ::
  "WriteThunk \<Rightarrow> provider \<Rightarrow> world \<Rightarrow> (thrown option \<times> provider \<times> world) option" where
  "addWriteThunk thunk p w =
     (let p1 = p\<lparr>writeThunkQueue := writeThunkQueue p @ [thunk]\<rparr>
      in if lastStateRef p1 \<noteq> None then runWriteThunk p1 w
         else Some (None, setState (Apply (\<lambda>prev w'. Some (mMerge prev mCreate, w'))) p1, w))"

text \<open>What a call of \<^verbatim>\<open>write\<close> gives its caller: nothing, a promise, or an exception. The
  promise is the one of lines 451-466, made over the array \<^verbatim>\<open>pendingPromises\<close> as it is
  when \<^verbatim>\<open>addWriteThunk\<close> has returned.\<close>

datatype writeReturn = ReturnsVoid | ReturnsPromise "pend list" | Throws thrown

text \<open>\<^verbatim>\<open>writeAtom\<close>, lines 349-468, as the call number \<open>wid\<close>: its array \<^verbatim>\<open>pendingPromises\<close>
  starts empty.\<close>

definition writeAtom ::
  "nat \<Rightarrow> defs \<Rightarrow> nat \<Rightarrow> atom \<Rightarrow> Value \<Rightarrow> provider \<Rightarrow> world \<Rightarrow> (writeReturn \<times> provider \<times> world) option" where
  "writeAtom n d wid writingAtom update p w =
     (case addWriteThunk (\<lambda>prevState. writeAtomState n d wid prevState writingAtom update) p
             (w\<lparr>pendingPromises := (pendingPromises w)(wid := [])\<rparr>) of
        None \<Rightarrow> None
      | Some (Some e, p', w') \<Rightarrow> Some (Throws e, p', w')
      | Some (None, p', w') \<Rightarrow>
          if pendingPromises w' wid \<noteq> []
          then Some (ReturnsPromise (pendingPromises w' wid), p', w')
          else Some (ReturnsVoid, p', w'))"

text \<open>The first \<^verbatim>\<open>Promise.all(pendingPromises)\<close> of line 457, called while the promises of the
  array are pending or rejected already: it rejects with the first rejected one, and
  \<^verbatim>\<open>.catch(reject)\<close> rejects the promise \<^verbatim>\<open>write\<close> returned with the same.\<close>

fun rejectsWith :: "pend list \<Rightarrow> thrown option" where
  "rejectsWith [] = None"
| "rejectsWith (Rejected e # ps) = Some e"
| "rejectsWith (Pending q # ps) = rejectsWith ps"

text \<open>\<^verbatim>\<open>readAtom\<close>, lines 329-347, called by the action \<^verbatim>\<open>read\<close> of lines 599-600 with the
  provider's maps. \<^verbatim>\<open>nextState !== prevState\<close> compares the contents.\<close>

definition readAtom ::
  "nat \<Rightarrow> defs \<Rightarrow> State \<Rightarrow> atom \<Rightarrow> provider \<Rightarrow> world \<Rightarrow> (atomState \<times> provider \<times> world) option" where
  "readAtom n d st readingAtom p w =
     (let prevState = (case mGet (readPendingMap p) st of Some s \<Rightarrow> s | None \<Rightarrow> st)
      in case readAtomState n d (Some (atomStateCache p)) readingAtom prevState w of
           None \<Rightarrow> None
         | Some ((atomState, nextState), w') \<Rightarrow>
             Some (atomState,
                   (if nextState \<noteq> prevState
                    then p\<lparr>readPendingMap := mSet (readPendingMap p) st nextState\<rparr>
                    else p),
                   w'))"

text \<open>The actions \<^verbatim>\<open>add\<close> and \<^verbatim>\<open>del\<close>, lines 584-598, as the updaters they give \<^verbatim>\<open>setUsed\<close>.\<close>

definition add :: "nat \<Rightarrow> atom \<Rightarrow> (atom, nat list) ImmutableMap \<Rightarrow> (atom, nat list) ImmutableMap" where
  "add ident atom prev =
     mSet prev atom
       (let old = (case mGet prev atom of None \<Rightarrow> [] | Some ids \<Rightarrow> ids)
        in if ident \<in> set old then old else old @ [ident])"

definition del :: "nat \<Rightarrow> atom \<Rightarrow> (atom, nat list) ImmutableMap \<Rightarrow> (atom, nat list) ImmutableMap" where
  "del ident atom prev =
     (case mGet prev atom of
        None \<Rightarrow> prev
      | Some oldSet \<Rightarrow>
          (let newSet = removeAll ident oldSet
           in if length newSet \<noteq> 0 then mSet prev atom newSet else mDel prev atom))"

text \<open>React's part, which is not in the sources: at the next render the calls of
  \<^verbatim>\<open>setStateOrig\<close> are applied to the state in the order they were made.\<close>

primrec applyCalls :: "SetStateAction list \<Rightarrow> State \<Rightarrow> world \<Rightarrow> (State \<times> world) option" where
  "applyCalls [] s w = Some (s, w)"
| "applyCalls (c # cs) s w =
     (case c of
        Put s' \<Rightarrow> applyCalls cs s' w
      | Apply f \<Rightarrow> (case f s w of None \<Rightarrow> None | Some (s', w') \<Rightarrow> applyCalls cs s' w'))"

definition render :: "provider \<Rightarrow> world \<Rightarrow> (provider \<times> world) option" where
  "render p w =
     (case applyCalls (setStateOrigCalls p) (state p) w of
        None \<Rightarrow> None
      | Some (s, w') \<Rightarrow> Some (p\<lparr>state := s, setStateOrigCalls := []\<rparr>, w'))"

text \<open>The provider as its first render leaves it (lines 515-523, 543, 571).\<close>

definition initialProvider :: provider where
  "initialProvider =
     \<lparr>state = initialState, setStateOrigCalls = [], lastStateRef = None, pendingStateRef = None,
      readPendingMap = [], atomStateCache = [], used = mCreate, writeThunkQueue = [],
      microtasks = 0\<rparr>"

definition initialWorld :: world where
  "initialWorld = \<lparr>nextP = 0, effs = [], pendingPromises = (\<lambda>wid. [])\<rparr>"

section \<open>Auxiliary notions and the atoms of the scenarios\<close>

text \<open>The fields of an atom's state other than its set of dependents.\<close>

definition fields :: "atomState \<Rightarrow> Error option \<times> promise option \<times> promise option \<times> Value" where
  "fields st = (readE st, readP st, writeP st, val st)"

text \<open>One derived atom whose read function returns a promise at once; it has no
  \<^verbatim>\<open>init\<close> and no write function.\<close>

definition asyncDefs :: defs where
  "asyncDefs = \<lparr>initOf = (\<lambda>a. Undefined), readOf = (\<lambda>a. RetPromise),
               writeOf = (\<lambda>a u. WThrow (TError (Error ''not writable'')))\<rparr>"

text \<open>Atom 0 throws \<^verbatim>\<open>new Error('boom')\<close> when read; every other atom returns \<^verbatim>\<open>get(0)\<close>.\<close>

definition errDefs :: defs where
  "errDefs =
     \<lparr>initOf = (\<lambda>a. Undefined),
      readOf = (\<lambda>a. if a = 0 then Throw (TError (Error ''boom'')) else Get 0 Ret),
      writeOf = (\<lambda>a u. WThrow (TError (Error ''not writable'')))\<rparr>"

text \<open>The snapshot after atom 0 of \<open>errDefs\<close> was read.\<close>

definition errStored :: State where
  "errStored =
     [(0, \<lparr>readE = Some (Error ''boom''), readP = None, writeP = None, val = Undefined,
           deps = []\<rparr>)]"

text \<open>Atom 0 is a primitive atom with \<^verbatim>\<open>init\<close> 0 (it reads itself, and its write function
  sets itself); atom 1 calls \<^verbatim>\<open>get(0)\<close> and returns a promise, and its write function sets
  itself.\<close>

definition staleDefs :: defs where
  "staleDefs =
     \<lparr>initOf = (\<lambda>a. if a = 0 then Num 0 else Undefined),
      readOf = (\<lambda>a. if a = 0 then Get 0 Ret else Get 0 (\<lambda>v. RetPromise)),
      writeOf = (\<lambda>a u. WSet a u WDone)\<rparr>"

text \<open>The snapshot after atom 1 of \<open>staleDefs\<close> was read from the empty snapshot, and the
  one after 5 was then written to atom 1.\<close>

definition stalePending :: State where
  "stalePending =
     [(0, \<lparr>readE = None, readP = None, writeP = None, val = Num 0, deps = [0]\<rparr>),
      (1, \<lparr>readE = None, readP = Some 0, writeP = None, val = Undefined, deps = []\<rparr>)]"

definition staleWritten :: State where
  "staleWritten =
     [(0, \<lparr>readE = None, readP = None, writeP = None, val = Num 0, deps = [0]\<rparr>),
      (1, \<lparr>readE = None, readP = None, writeP = None, val = Num 5, deps = []\<rparr>)]"

text \<open>The specification's words for an atom the sweep may evict: no outstanding read or write
  promise, a set of dependents that is empty or holds only the atom itself, and no
  subscriber that references it.\<close>

definition eligible :: "(atom, nat list) ImmutableMap \<Rightarrow> State \<Rightarrow> atom \<Rightarrow> bool" where
  "eligible usd s a =
     (case mGet s a of
        None \<Rightarrow> False
      | Some st \<Rightarrow>
          readP st = None \<and> writeP st = None \<and> (deps st = [] \<or> deps st = [a]) \<and>
          (case mGet usd a of None \<Rightarrow> True | Some ids \<Rightarrow> ids = []))"

text \<open>A committed snapshot with a primitive atom 0 and an atom 1 that depends on it, both
  resolved, and a provider that holds it with no subscriber.\<close>

definition gcState :: State where
  "gcState =
     [(0, \<lparr>readE = None, readP = None, writeP = None, val = Num 0, deps = [0, 1]\<rparr>),
      (1, \<lparr>readE = None, readP = None, writeP = None, val = Num 0, deps = []\<rparr>)]"

definition gcProvider :: provider where
  "gcProvider = initialProvider\<lparr>state := gcState, lastStateRef := Some gcState\<rparr>"

text \<open>The most recent pending-or-committed snapshot, line 482.\<close>

definition current :: "provider \<Rightarrow> State" where
  "current p = (case pendingStateRef p of Some s \<Rightarrow> s | None \<Rightarrow> the (lastStateRef p))"

text \<open>The specification's words for the queue: the thunks applied strictly in submission
  order, each to the snapshot the one before it left. The result is what a thunk threw, if
  one did, the thunks behind it, and the last snapshot.\<close>

primrec applyInOrder ::
  "WriteThunk list \<Rightarrow> State \<Rightarrow> world \<Rightarrow> (thrown option \<times> WriteThunk list \<times> State \<times> world) option" where
  "applyInOrder [] s w = Some (None, [], s, w)"
| "applyInOrder (thunk # rest) s w =
     (case thunk s w of
        None \<Rightarrow> None
      | Some (Inl (e, w')) \<Rightarrow> Some (Some e, rest, s, w')
      | Some (Inr (s', w')) \<Rightarrow> applyInOrder rest s' w')"

text \<open>The scenario of the specification: atom 0 is \<^verbatim>\<open>count\<close>, a primitive atom with \<^verbatim>\<open>init\<close> 0
  (it reads itself, and its write function sets itself to the update); atom 1 is
  \<^verbatim>\<open>doubled\<close>, which reads \<^verbatim>\<open>get(count) * 2\<close> and is not writable. \<open>times2\<close> is \<^verbatim>\<open>* 2\<close> on
  numbers (on \<^verbatim>\<open>undefined\<close> JavaScript gives \<^verbatim>\<open>NaN\<close>, which \<open>Value\<close> does not have and no
  scenario reaches).\<close>

fun times2 :: "Value \<Rightarrow> Value" where
  "times2 (Num n) = Num (n * 2)"
| "times2 Undefined = Undefined"

definition countDefs :: defs where
  "countDefs =
     \<lparr>initOf = (\<lambda>a. if a = 0 then Num 0 else Undefined),
      readOf = (\<lambda>a. if a = 0 then Get 0 Ret else Get 0 (\<lambda>x. Ret (times2 x))),
      writeOf = (\<lambda>a u. if a = 0 then WSet 0 u WDone
                       else WThrow (TError (Error ''not writable'')))\<rparr>"

text \<open>A provider with no committed snapshot yet and two writes to \<^verbatim>\<open>count\<close> waiting in its
  queue: 1, then 5.\<close>

definition queuedProvider :: provider where
  "queuedProvider =
     initialProvider
       \<lparr>writeThunkQueue :=
          [\<lambda>prevState. writeAtomState 2 countDefs 0 prevState 0 (Num 1),
           \<lambda>prevState. writeAtomState 2 countDefs 1 prevState 0 (Num 5)]\<rparr>"

text \<open>Primitive atoms whose write functions go wrong: that of atom 0 throws at once; that of
  atom 1 calls \<^verbatim>\<open>set(atom2, update)\<close> and then throws; that of atom 2 returns a promise.\<close>

definition throwDefs :: defs where
  "throwDefs =
     \<lparr>initOf = (\<lambda>a. Num 0),
      readOf = (\<lambda>a. Get a Ret),
      writeOf = (\<lambda>a u. if a = 0 then WThrow (TError (Error ''boom''))
                       else if a = 1 then WSet 2 u (WThrow (TError (Error ''boom'')))
                       else WRetPromise)\<rparr>"

text \<open>A provider whose committed snapshot is the empty one.\<close>

definition committedProvider :: provider where
  "committedProvider = initialProvider\<lparr>lastStateRef := Some []\<rparr>"

text \<open>The callback of lines 426-430, run when the promise that \<^verbatim>\<open>atom.write\<close> returned has
  resolved; the promise stored as \<^verbatim>\<open>writeP\<close> resolves when it has returned.\<close>

definition thenClearWriteP ::
  "atom \<Rightarrow> provider \<Rightarrow> world \<Rightarrow> (thrown option \<times> provider \<times> world) option" where
  "thenClearWriteP atom = addWriteThunk (\<lambda>prev w. Some (Inr (clearWriteP atom prev, w)))"

text \<open>The callback of lines 364-366, run when the write promise it waited for has resolved.\<close>

definition thenWrite ::
  "nat \<Rightarrow> defs \<Rightarrow> nat \<Rightarrow> atom \<Rightarrow> Value \<Rightarrow> provider \<Rightarrow> world
     \<Rightarrow> (thrown option \<times> provider \<times> world) option" where
  "thenWrite n d wid atom update = addWriteThunk (\<lambda>prev. writeAtomState n d wid prev atom update)"

text \<open>How a promise settles.\<close>

datatype settlement = Resolves | Rejects

text \<open>What the engine does when the promise that \<^verbatim>\<open>atom.write\<close> returned settles, lines
  426-430: the callback is given to \<^verbatim>\<open>.then\<close> as its only argument, so it runs when the promise
  resolves and nothing runs when it rejects; the promise stored as \<^verbatim>\<open>writeP\<close> then settles
  the same way.\<close>

definition onWriteSettled ::
  "settlement \<Rightarrow> atom \<Rightarrow> provider \<Rightarrow> world \<Rightarrow> (thrown option \<times> provider \<times> world) option" where
  "onWriteSettled how atom p w =
     (case how of Resolves \<Rightarrow> thenClearWriteP atom p w | Rejects \<Rightarrow> Some (None, p, w))"

text \<open>What the engine does when the promise stored as \<^verbatim>\<open>writeP\<close> settles, for a write that
  waited for it, lines 364-366: again \<^verbatim>\<open>.then\<close> with one argument.\<close>

definition onWritePSettled ::
  "settlement \<Rightarrow> nat \<Rightarrow> defs \<Rightarrow> nat \<Rightarrow> atom \<Rightarrow> Value \<Rightarrow> provider \<Rightarrow> world
     \<Rightarrow> (thrown option \<times> provider \<times> world) option" where
  "onWritePSettled how n d wid atom update p w =
     (case how of Resolves \<Rightarrow> thenWrite n d wid atom update p w | Rejects \<Rightarrow> Some (None, p, w))"

text \<open>Primitive atoms with an asynchronous write function: it sets the atom to the update
  and returns a promise.\<close>

definition asyncWriteDefs :: defs where
  "asyncWriteDefs =
     \<lparr>initOf = (\<lambda>a. Num 0), readOf = (\<lambda>a. Get a Ret),
      writeOf = (\<lambda>a u. WSet a u WRetPromise)\<rparr>"

text \<open>For every atom, the last value that was produced for it in the history of a snapshot:
  the value its read function returned, the value a write set, or the value its read promise
  resolved with; \<open>None\<close> while there has been none since the atom entered the snapshot.\<close>

type_synonym produced = "atom \<Rightarrow> Value option"

text \<open>What holds of an atom's state, given the last value produced for it: \<^verbatim>\<open>readE\<close> and
  \<^verbatim>\<open>readP\<close> are not both set; while \<^verbatim>\<open>readP\<close> is set the value is the atom's \<^verbatim>\<open>init\<close>; while
  \<^verbatim>\<open>readE\<close> is set the value is \<^verbatim>\<open>undefined\<close> (a read that threw) or the atom's \<^verbatim>\<open>init\<close> (a
  promise that rejected); and while neither is set the value is the last one produced, or
  \<^verbatim>\<open>undefined\<close> if none was.\<close>

definition wfAtomState :: "defs \<Rightarrow> atom \<Rightarrow> Value option \<Rightarrow> atomState \<Rightarrow> bool" where
  "wfAtomState d a lastValue st =
     ((readE st = None \<or> readP st = None) \<and>
      (readP st \<noteq> None \<longrightarrow> val st = initOf d a) \<and>
      (readE st \<noteq> None \<longrightarrow> val st = Undefined \<or> val st = initOf d a) \<and>
      (readE st = None \<and> readP st = None \<longrightarrow>
         val st = (case lastValue of Some v \<Rightarrow> v | None \<Rightarrow> Undefined)))"

text \<open>The same of every atom of a snapshot; an atom that is not in the snapshot has no last
  value.\<close>

definition wellFormed :: "defs \<Rightarrow> State \<Rightarrow> produced \<Rightarrow> bool" where
  "wellFormed d s h =
     (\<forall>a. (mGet s a = None \<longrightarrow> h a = None) \<and>
          (\<forall>st. mGet s a = Some st \<longrightarrow> wfAtomState d a (h a) st))"

text \<open>The promise is the atom's \<^verbatim>\<open>readP\<close> in the snapshot, the test of line 115.\<close>

definition isCurrent :: "State \<Rightarrow> atom \<Rightarrow> promise \<Rightarrow> bool" where
  "isCurrent s atom p = (case mGet s atom of None \<Rightarrow> False | Some st \<Rightarrow> readP st = Some p)"

text \<open>
  The snapshots the provider can come to hold, each with the last values produced on the
  way to it: the initial snapshot and what one update of the engine makes of a snapshot,
  whenever and with whatever arguments it is made. The updates are: the end of a read
  (lines 227-287), however the read function ended; the reuse of a cached state (line 179),
  a state that some snapshot has held, with its last value; the \<^verbatim>\<open>set\<close> of a write function
  on its own atom (lines 393-401 and 405-408); the storing of a write promise (lines
  425-431) and the thunk that clears it (lines 427-429); the settlement callbacks of a read
  promise (lines 232-239 and 244-254), which produce a value only when the promise is still
  the atom's \<^verbatim>\<open>readP\<close>; the updater of line 194; a deletion by the sweep (line 561); and a
  merge (lines 207 and 617), in which the right-hand snapshot's atoms win. The transitions
  of the engine (\<open>readAtomState\<close>, \<open>writeAtomState\<close>, \<open>updateDependentsState\<close>) are sequences of
  these updates.
\<close>

inductive reachable :: "defs \<Rightarrow> State \<Rightarrow> produced \<Rightarrow> bool" for d :: defs where
  initial: "reachable d initialState (\<lambda>a. None)"
| finished: "reachable d s h \<Longrightarrow> finishRead d atom out s ds w = ((st, s'), w') \<Longrightarrow>
             reachable d s' (case out of Returned v \<Rightarrow> h(atom := Some v) | _ \<Rightarrow> h)"
| restored: "reachable d s h \<Longrightarrow> reachable d s0 h0 \<Longrightarrow> mGet s atom = None \<Longrightarrow>
             mGet s0 atom = Some st \<Longrightarrow> reachable d (mSet s atom st) (h(atom := h0 atom))"
| setByWrite: "reachable d s h \<Longrightarrow>
               reachable d
                 (updateAtomState atom s
                    \<lparr>readE' = Some None, readP' = Some None, writeP' = None, val' = Some v\<rparr> None)
                 (h(atom := Some v))"
| writeStarted: "reachable d s h \<Longrightarrow>
                 reachable d
                   (updateAtomState atom s
                      \<lparr>readE' = None, readP' = None, writeP' = Some (Some wp), val' = None\<rparr> None) h"
| cleared: "reachable d s h \<Longrightarrow> reachable d (clearWriteP atom s) h"
| resolved: "reachable d s h \<Longrightarrow>
             reachable d (onReadResolved atom ds v p s)
               (if isCurrent s atom p then h(atom := Some v) else h)"
| rejected: "reachable d s h \<Longrightarrow> reachable d (onReadRejected atom ds e p s) h"
| dependentAdded: "reachable d s h \<Longrightarrow> reachable d (addDependent atom dependent s) h"
| evicted: "reachable d s h \<Longrightarrow> reachable d (mDel s atom) (h(atom := None))"
| merged: "reachable d s h \<Longrightarrow> reachable d t k \<Longrightarrow>
           reachable d (mMerge s t) (\<lambda>a. if mGet t a \<noteq> None then k a else h a)"

text \<open>A snapshot that is reachable with some record of last values.\<close>

definition attainable :: "defs \<Rightarrow> State \<Rightarrow> bool" where
  "attainable d s = (\<exists>h. reachable d s h)"

text \<open>A cache, if there is one, holds only states that reachable snapshots have held (the
  sweep fills it from the committed snapshot).\<close>

definition fromAttainable :: "defs \<Rightarrow> (atom, atomState) ImmutableMap option \<Rightarrow> bool" where
  "fromAttainable d cacheOpt =
     (\<forall>c a st. cacheOpt = Some c \<and> mGet c a = Some st \<longrightarrow>
        (\<exists>s0 h0. reachable d s0 h0 \<and> mGet s0 a = Some st))"

text \<open>The partial state that line 270-277 passes to \<^verbatim>\<open>updateAtomState\<close>, by the way the
  call of \<^verbatim>\<open>atom.read\<close> ended.\<close>

definition readPartial :: "defs \<Rightarrow> atom \<Rightarrow> outcome \<Rightarrow> world \<Rightarrow> partial" where
  "readPartial d atom out w =
     (case out of
        Returned v \<Rightarrow> \<lparr>readE' = Some None, readP' = Some None, writeP' = None, val' = Some v\<rparr>
      | ReturnedPromise \<Rightarrow>
          \<lparr>readE' = Some None, readP' = Some (Some (nextP w)), writeP' = None,
           val' = Some (initOf d atom)\<rparr>
      | Threw (TPromise p) \<Rightarrow>
          \<lparr>readE' = Some None, readP' = Some (Some p), writeP' = None, val' = Some (initOf d atom)\<rparr>
      | Threw (TError e) \<Rightarrow>
          \<lparr>readE' = Some (Some e), readP' = Some None, writeP' = None, val' = Some Undefined\<rparr>
      | Threw (TOther v) \<Rightarrow>
          \<lparr>readE' = Some (Some (NewError v)), readP' = Some None, writeP' = None,
           val' = Some Undefined\<rparr>)"

text \<open>The snapshots of \<open>staleDefs\<close> after promise 0 of atom 1 resolved with 42, and after 1 was
  then written to atom 0, which reads atom 1 again.\<close>

definition staleResolved :: State where
  "staleResolved =
     [(0, \<lparr>readE = None, readP = None, writeP = None, val = Num 0, deps = [0, 1]\<rparr>),
      (1, \<lparr>readE = None, readP = None, writeP = None, val = Num 42, deps = []\<rparr>)]"

definition staleRepending :: State where
  "staleRepending =
     [(0, \<lparr>readE = None, readP = None, writeP = None, val = Num 1, deps = [0, 1]\<rparr>),
      (1, \<lparr>readE = None, readP = Some 1, writeP = None, val = Undefined, deps = []\<rparr>)]"

text \<open>The last values produced on the way to \<open>staleRepending\<close>: 1 was written to atom 0, and
  atom 1 resolved with 42.\<close>

definition staleProduced :: produced where
  "staleProduced = (\<lambda>a. None)(0 := Some (Num 1), 1 := Some (Num 42))"

text \<open>Atom 0 is primitive; every other atom reads atom 0 and returns 42 while that is 0, and
  throws otherwise.\<close>

definition flipDefs :: defs where
  "flipDefs =
     \<lparr>initOf = (\<lambda>a. if a = 0 then Num 0 else Undefined),
      readOf = (\<lambda>a. if a = 0 then Get 0 Ret
                     else Get 0 (\<lambda>x. if x = Num 0 then Ret (Num 42)
                                      else Throw (TError (Error ''boom'')))),
      writeOf = (\<lambda>a u. WSet a u WDone)\<rparr>"

text \<open>The atom has a state in the snapshot, with the given value and neither a read error
  nor a read promise.\<close>

definition settled :: "State \<Rightarrow> atom \<Rightarrow> Value \<Rightarrow> bool" where
  "settled s a x = (\<exists>st. mGet s a = Some st \<and> val st = x \<and> readE st = None \<and> readP st = None)"

text \<open>The dependents recorded for an atom, none if it has no state.\<close>

definition depsOf :: "State \<Rightarrow> atom \<Rightarrow> atom set" where
  "depsOf s b = (case mGet s b of None \<Rightarrow> {} | Some st \<Rightarrow> set (deps st))"












text \<open>Atoms 0, 1 and 2 are primitive. Atom 3 reads atom 0 and, while that is 0, returns a
  promise; otherwise it returns \<^verbatim>\<open>get\<close> of atom 1. Atom 4 reads atom 2 and returns \<^verbatim>\<open>get\<close> of
  atom 3.\<close>

definition harmDefs :: defs where
  "harmDefs =
     \<lparr>initOf = (\<lambda>a. if a < 3 then Num 0 else Undefined),
      readOf = (\<lambda>a. if a < 3 then Get a Ret
                     else if a = 3 then Get 0 (\<lambda>x. if x = Num 0 then RetPromise else Get 1 Ret)
                     else Get 2 (\<lambda>x. Get 3 Ret)),
      writeOf = (\<lambda>a u. WSet a u WDone)\<rparr>"

section \<open>The immutable map: what get answers after set, delete and merge\<close>

lemma mGet_mCreate: "mGet mCreate k = None"
  by (simp add: mGet_def mCreate_def)

lemma mGet_mSet: "mGet (mSet m k v) k' = (if k' = k then Some v else mGet m k')"
  by (simp add: mGet_def mSet_def update_conv')

lemma mGet_mDel: "mGet (mDel m k) k' = (if k' = k then None else mGet m k')"
  by (simp add: mGet_def mDel_def delete_conv')

lemma mGet_mMerge:
  "mGet (mMerge a b) k = (case mGet b k of Some v \<Rightarrow> Some v | None \<Rightarrow> mGet a k)"
  by (simp add: mGet_def mMerge_def merge_conv' map_add_def split: option.splits)

text \<open>
  Claim C9. For every map \<open>m\<close>, key \<open>k\<close> and value \<open>v\<close>: get after set of \<open>k\<close> gives \<open>v\<close>, get
  after delete of \<open>k\<close> gives "not found", and every other key \<open>k'\<close> answers in the new map
  as it does in \<open>m\<close>; merge is right-biased; the empty map has no key. A mutator is a
  function from maps to maps: it returns a new map, and \<open>m\<close> on the right-hand sides is the
  original map, which still answers as before.
\<close>

theorem immutableMap_roundtrip:
  "mGet (mSet m k v) k' = (if k' = k then Some v else mGet m k') \<and>
   mGet (mDel m k) k' = (if k' = k then None else mGet m k') \<and>
   mGet (mMerge m m') k' = (case mGet m' k' of Some x \<Rightarrow> Some x | None \<Rightarrow> mGet m k') \<and>
   mGet (mCreate :: ('a, 'b) ImmutableMap) k' = None"
  by (simp add: mGet_mSet mGet_mDel mGet_mMerge mGet_mCreate)

section \<open>Dependency reconciliation leaves every other field alone\<close>

lemma dropStale_fields:
  "map_option fields (mGet (fst (dropStale atom as s ds)) a) = map_option fields (mGet s a)"
  by (induction as arbitrary: s ds) (auto simp: mGet_mSet fields_def split: option.splits)

lemma addFresh_fields:
  "map_option fields (mGet (addFresh atom as s) a) = map_option fields (mGet s a)"
  by (induction as arbitrary: s) (auto simp: mGet_mSet fields_def split: option.splits)

lemma replaceDependencies_fields:
  "map_option fields (mGet (replaceDependencies atom s ds) a) = map_option fields (mGet s a)"
  by (simp add: replaceDependencies_def split: prod.splits)
     (metis addFresh_fields dropStale_fields fst_conv)

lemma mGet_updateAtomState:
  "mGet (updateAtomState atom s part None) a =
     (if a = atom then Some (spread (case mGet s atom of None \<Rightarrow> newAtomState | Some st \<Rightarrow> st) part)
      else mGet s a)"
  by (simp add: updateAtomState_def mGet_mSet)

lemma fields_eqD:
  "map_option fields (mGet s' a) = map_option fields (mGet s a) \<Longrightarrow> mGet s a = Some st \<Longrightarrow>
     \<exists>st'. mGet s' a = Some st' \<and> readE st' = readE st \<and> readP st' = readP st \<and>
           writeP st' = writeP st \<and> val st' = val st"
  by (cases "mGet s' a") (auto simp: fields_def)

lemma replaceDependencies_Some:
  "mGet s a = Some st \<Longrightarrow>
     \<exists>st'. mGet (replaceDependencies atom s ds) a = Some st' \<and> readE st' = readE st \<and>
           readP st' = readP st \<and> writeP st' = writeP st \<and> val st' = val st"
  by (rule fields_eqD [OF replaceDependencies_fields])

lemma onReadResolved_current:
  assumes "mGet prev atom = Some st" and "readP st = Some p"
  shows "\<exists>st2. mGet (onReadResolved atom ds v p prev) atom = Some st2 \<and> val st2 = v \<and>
           readE st2 = None \<and> readP st2 = None \<and> writeP st2 = writeP st"
proof -
  from replaceDependencies_Some [OF assms(1), of atom ds] assms(2)
  obtain st' where st': "mGet (replaceDependencies atom prev ds) atom = Some st'"
    "readP st' = Some p" "writeP st' = writeP st"
    by auto
  then show ?thesis
    by (simp add: onReadResolved_def updateAtomState_def mGet_mSet spread_def)
qed

lemma readAtomState_stored:
  "mGet s atom = Some st \<Longrightarrow> readAtomState (Suc n) d (Some c) atom s w = Some ((st, s), w)"
  by simp

lemma finishRead_promise:
  "finishRead d atom ReturnedPromise s ds w = ((st, s1), w1) \<Longrightarrow>
     mGet s1 atom = Some st \<and> readP st = Some (nextP w) \<and> readE st = None \<and>
     val st = initOf d atom \<and> w1 = register (ReadSettles (nextP w) atom ds) (w\<lparr>nextP := Suc (nextP w)\<rparr>) \<and>
     s1 = updateAtomState atom s
           \<lparr>readE' = Some None, readP' = Some (Some (nextP w)), writeP' = None,
            val' = Some (initOf d atom)\<rparr> None"
  by (auto simp: finishRead_def mGet_updateAtomState spread_def Let_def)

text \<open>
  Claim C3. Take an atom whose read function returns a promise (the call of \<^verbatim>\<open>atom.read\<close>
  ends with \<open>ReturnedPromise\<close>; with a cache, the atom is in neither the snapshot nor the
  cache, so that the function is called). Reading it yields at once a pending state:
  \<^verbatim>\<open>readP\<close> is the fresh promise, \<^verbatim>\<open>readE\<close> is unset and the value is the atom's \<^verbatim>\<open>init\<close>; the
  callback for the settlement is registered. Once the promise has resolved with \<open>v\<close>, in any
  snapshot \<open>prev\<close> where that promise is still the atom's \<^verbatim>\<open>readP\<close> and with whatever
  dependencies the read has collected, reading the atom (as the action \<^verbatim>\<open>read\<close> does, with
  the cache) yields value \<open>v\<close> with \<^verbatim>\<open>readE\<close> and \<^verbatim>\<open>readP\<close> unset.
\<close>

theorem async_read_pending_then_resolved:
  assumes miss: "\<forall>cache. cacheOpt = Some cache \<longrightarrow>
                   mGet prevState atom = None \<and> mGet cache atom = None"
    and run: "runRead d (readAtomState n d cacheOpt) atom (readOf d atom) prevState [] w
                = Some (ReturnedPromise, nextState, ds, w')"
  shows "\<exists>st s1 w1.
           readAtomState (Suc n) d cacheOpt atom prevState w = Some ((st, s1), w1) \<and>
           mGet s1 atom = Some st \<and> readP st = Some (nextP w') \<and> readE st = None \<and>
           val st = initOf d atom \<and> ReadSettles (nextP w') atom ds \<in> set (effs w1) \<and>
           (\<forall>prev st' ds' v m c w2.
              mGet prev atom = Some st' \<and> readP st' = Some (nextP w') \<longrightarrow>
              (\<exists>st2. readAtomState (Suc m) d (Some c) atom
                        (onReadResolved atom ds' v (nextP w') prev) w2
                        = Some ((st2, onReadResolved atom ds' v (nextP w') prev), w2) \<and>
                     val st2 = v \<and> readE st2 = None \<and> readP st2 = None))"
proof -
  obtain st s1 w1 where fin: "finishRead d atom ReturnedPromise nextState ds w' = ((st, s1), w1)"
    by (metis surj_pair)
  have rd: "readAtomState (Suc n) d cacheOpt atom prevState w = Some ((st, s1), w1)"
    using miss run fin by (cases cacheOpt) auto
  note f = finishRead_promise [OF fin]
  have reg: "ReadSettles (nextP w') atom ds \<in> set (effs w1)"
    using f by (simp add: register_def)
  have later: "\<exists>st2. readAtomState (Suc m) d (Some c) atom
                        (onReadResolved atom ds' v (nextP w') prev) w2
                        = Some ((st2, onReadResolved atom ds' v (nextP w') prev), w2) \<and>
                     val st2 = v \<and> readE st2 = None \<and> readP st2 = None"
    if "mGet prev atom = Some st'" "readP st' = Some (nextP w')" for prev st' ds' v m c w2
  proof -
    from onReadResolved_current [OF that, of ds' v]
    obtain st2 where "mGet (onReadResolved atom ds' v (nextP w') prev) atom = Some st2"
      "val st2 = v" "readE st2 = None" "readP st2 = None"
      by blast
    then show ?thesis
      using readAtomState_stored by blast
  qed
  show ?thesis
    using rd f reg later by blast
qed


text \<open>The scenario of the specification: the promise resolves to 42.\<close>

theorem async_read_pending_then_resolved_witness:
  "\<exists>st s1 w1 st2.
     readAtomState 1 asyncDefs (Some []) 0 initialState initialWorld = Some ((st, s1), w1) \<and>
     readP st = Some 0 \<and> readE st = None \<and> val st = Undefined \<and>
     ReadSettles 0 0 [] \<in> set (effs w1) \<and>
     readAtomState 1 asyncDefs (Some []) 0 (onReadResolved 0 [] (Num 42) 0 s1) w1
       = Some ((st2, onReadResolved 0 [] (Num 42) 0 s1), w1) \<and>
     val st2 = Num 42 \<and> readE st2 = None \<and> readP st2 = None"
proof -
  have miss: "\<forall>cache. Some [] = Some cache \<longrightarrow>
                mGet initialState (0::atom) = None \<and> mGet cache (0::atom) = None"
    by (simp add: mGet_def initialState_def mCreate_def)
  have run: "runRead asyncDefs (readAtomState 0 asyncDefs (Some [])) 0 (readOf asyncDefs 0)
               initialState [] initialWorld
             = Some (ReturnedPromise, initialState, [], initialWorld)"
    by (simp add: asyncDefs_def)
  have p0: "nextP initialWorld = 0" and i0: "initOf asyncDefs 0 = Undefined"
    by (simp_all add: initialWorld_def asyncDefs_def)
  from async_read_pending_then_resolved [OF miss run]
  obtain st s1 w1 where
    r: "readAtomState (Suc 0) asyncDefs (Some []) 0 initialState initialWorld = Some ((st, s1), w1)"
    and s: "mGet s1 0 = Some st" "readP st = Some 0" "readE st = None" "val st = Undefined"
      "ReadSettles 0 0 [] \<in> set (effs w1)"
    and later: "\<And>prev st' ds' v m c w2. mGet prev 0 = Some st' \<and> readP st' = Some 0 \<Longrightarrow>
      \<exists>st2. readAtomState (Suc m) asyncDefs (Some c) 0 (onReadResolved 0 ds' v 0 prev) w2
               = Some ((st2, onReadResolved 0 ds' v 0 prev), w2) \<and>
            val st2 = v \<and> readE st2 = None \<and> readP st2 = None"
    unfolding p0 i0 by blast
  from later [OF conjI [OF s(1) s(2)]]
  obtain st2 where
    "readAtomState (Suc 0) asyncDefs (Some []) 0 (onReadResolved 0 [] (Num 42) 0 s1) w1
       = Some ((st2, onReadResolved 0 [] (Num 42) 0 s1), w1)"
    "val st2 = Num 42" "readE st2 = None" "readP st2 = None"
    by blast
  with r s show ?thesis
    unfolding One_nat_def by blast
qed

lemma mGet_finishRead_other:
  "finishRead d atom out s ds w = ((st, s1), w1) \<Longrightarrow> b \<noteq> atom \<Longrightarrow>
     map_option fields (mGet s1 b) = map_option fields (mGet s b)"
  by (auto simp: finishRead_def Let_def replaceDependencies_fields mGet_updateAtomState
           split: if_splits)

lemma finishRead_error:
  assumes "finishRead d atom (Threw (TError e)) s ds w = ((st, s1), w1)"
  shows "mGet s1 atom = Some st \<and> readE st = Some e \<and> readP st = None \<and> val st = Undefined \<and> w1 = w"
proof -
  let ?s0 = "updateAtomState atom s
               \<lparr>readE' = Some (Some e), readP' = Some None, writeP' = None, val' = Some Undefined\<rparr> None"
  have s1: "s1 = replaceDependencies atom ?s0 ds" and st: "st = the (mGet s1 atom)" and "w1 = w"
    using assms by (auto simp: finishRead_def Let_def)
  obtain st0 where "mGet ?s0 atom = Some st0" "readE st0 = Some e" "readP st0 = None" "val st0 = Undefined"
    by (simp add: mGet_updateAtomState spread_def)
  from replaceDependencies_Some [OF this(1), of atom ds] this(2-) s1 st \<open>w1 = w\<close>
  show ?thesis by auto
qed

text \<open>
  Claim C5. Let the snapshot store a read error \<open>e\<close> for atom \<open>a\<close>. Wherever the read function
  of another atom calls \<^verbatim>\<open>get(a)\<close> during a read with the cache (the action \<^verbatim>\<open>read\<close>), the
  getter throws \<open>e\<close>. For a dependent whose read function starts with that call and that has
  no state yet, the read returns the dependent's state with \<^verbatim>\<open>readE\<close> \<open>e\<close> and no \<^verbatim>\<open>readP\<close>, now
  stored in the snapshot; the error, promise and value fields of every other atom are as
  before.
\<close>

theorem read_error_propagates:
  assumes ne: "a \<noteq> atom"
    and stored: "mGet prevState a = Some aState" "readE aState = Some e"
    and miss: "mGet prevState atom = None" "mGet cache atom = None"
    and body: "readOf d atom = Get a k"
  shows "runRead d (readAtomState (Suc n) d (Some cache)) atom (Get a k') prevState ds w
           = Some (Threw (TError e), prevState, setAdd ds a, w) \<and>
         (\<exists>st s1.
            readAtomState (Suc (Suc n)) d (Some cache) atom prevState w = Some ((st, s1), w) \<and>
            mGet s1 atom = Some st \<and> readE st = Some e \<and> readP st = None \<and>
            (\<forall>b. b \<noteq> atom \<longrightarrow> map_option fields (mGet s1 b) = map_option fields (mGet prevState b)))"
proof -
  have get: "runRead d (readAtomState (Suc n) d (Some cache)) atom (Get a k'') prevState ds' w
           = Some (Threw (TError e), prevState, setAdd ds' a, w)" for k'' ds'
    using ne stored by simp
  obtain st s1 w1 where fin:
    "finishRead d atom (Threw (TError e)) prevState (setAdd [] a) w = ((st, s1), w1)"
    by (metis surj_pair)
  have rd: "readAtomState (Suc (Suc n)) d (Some cache) atom prevState w = Some ((st, s1), w1)"
    using miss body get [of k "[]"] fin by simp
  from finishRead_error [OF fin] mGet_finishRead_other [OF fin] rd get [of k' ds]
  show ?thesis by blast
qed

text \<open>Atom 0 throws when read; atom 1 reads atom 0 and ends with the same error.\<close>

theorem read_error_propagates_witness:
  "map_option (fst \<circ> fst) (readAtomState 1 errDefs (Some []) 0 initialState initialWorld)
     = Some \<lparr>readE = Some (Error ''boom''), readP = None, writeP = None, val = Undefined, deps = []\<rparr> \<and>
   map_option (snd \<circ> fst) (readAtomState 1 errDefs (Some []) 0 initialState initialWorld)
     = Some errStored \<and>
   (\<exists>st s1.
      readAtomState 2 errDefs (Some []) 1 errStored initialWorld = Some ((st, s1), initialWorld) \<and>
      mGet s1 1 = Some st \<and> readE st = Some (Error ''boom'') \<and> readP st = None \<and>
      map_option fields (mGet s1 0) = map_option fields (mGet errStored 0))"
proof -
  have a: "map_option (fst \<circ> fst) (readAtomState 1 errDefs (Some []) 0 initialState initialWorld)
     = Some \<lparr>readE = Some (Error ''boom''), readP = None, writeP = None, val = Undefined, deps = []\<rparr>"
    by code_simp
  have b: "map_option (snd \<circ> fst) (readAtomState 1 errDefs (Some []) 0 initialState initialWorld)
     = Some errStored"
    by code_simp
  have h: "(0::atom) \<noteq> 1"
    "mGet errStored 0 = Some \<lparr>readE = Some (Error ''boom''), readP = None, writeP = None, val = Undefined, deps = []\<rparr>"
    "readE \<lparr>readE = Some (Error ''boom''), readP = None, writeP = None, val = Undefined, deps = []\<rparr> = Some (Error ''boom'')"
    "mGet errStored 1 = None" "mGet ([] :: (atom, atomState) ImmutableMap) 1 = None"
    "readOf errDefs 1 = Get 0 Ret"
    by (simp_all add: errStored_def mGet_def errDefs_def)
  from read_error_propagates [OF h, of 0 Ret "[]" initialWorld]
  have "\<exists>st s1.
      readAtomState (Suc (Suc 0)) errDefs (Some []) 1 errStored initialWorld = Some ((st, s1), initialWorld) \<and>
      mGet s1 1 = Some st \<and> readE st = Some (Error ''boom'') \<and> readP st = None \<and>
      map_option fields (mGet s1 0) = map_option fields (mGet errStored 0)"
    by auto
  with a b show ?thesis
    by (simp add: numeral_2_eq_2)
qed

text \<open>
  Claim C10, at an input where the code does otherwise. Atom 1 is read and is pending on
  promise 0, with the dependency on atom 0 collected but not yet recorded; 5 is written to
  atom 1, which clears \<^verbatim>\<open>readP\<close>; then promise 0, now superseded, resolves with 42. The
  guard of \<^verbatim>\<open>updateAtomState\<close> keeps atom 1's state, but the snapshot it returns is the one
  \<^verbatim>\<open>replaceDependencies\<close> has already changed: atom 1 is now among the dependents of atom 0.
\<close>

theorem superseded_settlement_changes_snapshot:
  "map_option (\<lambda>((st, s), w). (s, effs w)) (readAtomState 2 staleDefs (Some []) 1 initialState initialWorld)
     = Some (stalePending, [ReadSettles 0 1 [0]]) \<and>
   map_option (map_sum fst fst) (writeAtomState 2 staleDefs 0 stalePending 1 (Num 5) initialWorld)
     = Some (Inr staleWritten) \<and>
   onReadResolved 1 [0] (Num 42) 0 staleWritten
     = [(0, \<lparr>readE = None, readP = None, writeP = None, val = Num 0, deps = [0, 1]\<rparr>),
        (1, \<lparr>readE = None, readP = None, writeP = None, val = Num 5, deps = []\<rparr>)] \<and>
   onReadResolved 1 [0] (Num 42) 0 staleWritten \<noteq> staleWritten"
  by code_simp

text \<open>
  What the change costs. Atom 4 is read, which reads atom 3, pending on promise 0 with the
  dependency on atom 0 collected. Then 1 is written to atom 0 and 1 to atom 2: atom 4 is
  read again and reads atom 3 again, which now returns the value of atom 1 and is recorded
  as a dependent of atoms 0 and 1. When the superseded promise 0 resolves, atom 3 keeps its
  state but is taken out of the dependents of atom 1. A write of 9 to atom 1 then leaves
  atom 3 at 0; without the settlement it gives 9.
\<close>

lemma superseded_settlement_loses_dependent:
  "(case readAtomState 3 harmDefs (Some []) 4 initialState initialWorld of
      Some ((st, s1), w1) \<Rightarrow>
     (case writeAtomState 3 harmDefs 0 s1 0 (Num 1) w1 of
        Some (Inr (s2, w2)) \<Rightarrow>
     (case writeAtomState 4 harmDefs 1 s2 2 (Num 1) w2 of
        Some (Inr (s3, w3)) \<Rightarrow>
     (case writeAtomState 4 harmDefs 2 (onReadResolved 3 [0] (Num 42) 0 s3) 1 (Num 9) w3 of
        Some (Inr (s5, w5)) \<Rightarrow>
     (case writeAtomState 4 harmDefs 2 s3 1 (Num 9) w3 of
        Some (Inr (s5', w5')) \<Rightarrow>
          Some (map_option readP (mGet s1 3), effs w1, map_option fields (mGet s3 3),
                depsOf s3 1, depsOf (onReadResolved 3 [0] (Num 42) 0 s3) 1,
                map_option val (mGet s5 3), map_option val (mGet s5' 3))
      | _ \<Rightarrow> None) | _ \<Rightarrow> None) | _ \<Rightarrow> None) | _ \<Rightarrow> None) | None \<Rightarrow> None)
   = Some (Some (Some 0), [ReadSettles 0 3 [0]], Some (None, None, None, Num 0),
           {1, 3}, {1}, Some (Num 0), Some (Num 9))"
  by code_simp

section \<open>The sweep\<close>

lemma deps_single: "length ds = Suc 0 \<Longrightarrow> a \<in> set ds \<Longrightarrow> ds = [a]"
  by (cases ds) auto

lemma eligible_mDel: "eligible usd (mDel s a) b = (b \<noteq> a \<and> eligible usd s b)"
  by (simp add: eligible_def mGet_mDel)

lemma sweepKeys_step:
  "sweepKeys usd (a # ks) s c dl =
     (if eligible usd s a then sweepKeys usd ks (mDel s a) (mSet c a (the (mGet s a))) True
      else sweepKeys usd ks s c dl)"
  by (auto simp: eligible_def Let_def split: option.splits dest: deps_single)

lemma sweepKeys_spec:
  "sweepKeys usd ks s c dl = (s', c', dl') \<Longrightarrow>
     (\<forall>b. mGet s' b = (if b \<in> set ks \<and> eligible usd s b then None else mGet s b)) \<and>
     (\<forall>b. mGet c' b = (if b \<in> set ks \<and> eligible usd s b then mGet s b else mGet c b)) \<and>
     dl' = (dl \<or> (\<exists>b \<in> set ks. eligible usd s b))"
proof (induction ks arbitrary: s c dl)
  case Nil
  then show ?case by simp
next
  case (Cons a ks)
  show ?case
  proof (cases "eligible usd s a")
    case True
    then obtain st where st: "mGet s a = Some st"
      by (auto simp: eligible_def split: option.splits)
    from Cons.prems True st
    have "sweepKeys usd ks (mDel s a) (mSet c a st) True = (s', c', dl')"
      by (simp only: sweepKeys_step) simp
    from Cons.IH [OF this] True st show ?thesis
      by (auto simp: eligible_mDel mGet_mDel mGet_mSet)
  next
    case False
    with Cons.prems have "sweepKeys usd ks s c dl = (s', c', dl')"
      by (simp only: sweepKeys_step) simp
    from Cons.IH [OF this] False show ?thesis
      by auto
  qed
qed

lemma sweepKeys_none:
  "\<forall>b \<in> set ks. \<not> eligible usd s b \<Longrightarrow> sweepKeys usd ks s c dl = (s, c, dl)"
  by (induction ks) (simp_all only: sweepKeys_step, simp_all)

lemma eligible_in_keys: "eligible usd s a \<Longrightarrow> a \<in> set (mKeys s)"
  by (auto simp: eligible_def mGet_def mKeys_def split: option.splits dest: map_of_SomeD
           intro: rev_image_eqI)

lemma eligible_cong:
  "mGet s' a = mGet s a \<Longrightarrow> eligible usd s' a = eligible usd s a"
  by (simp add: eligible_def)

lemma sweep_one_pass:
  assumes "sweepKeys usd (mKeys s) s c False = (s1, c1, dl)"
  shows "sweep usd s c = (s1, c1)"
proof (cases dl)
  case False
  with assms show ?thesis by (subst sweep.simps) simp
next
  case True
  have none: "\<forall>b \<in> set (mKeys s1). \<not> eligible usd s1 b"
  proof
    fix b assume "b \<in> set (mKeys s1)"
    show "\<not> eligible usd s1 b"
    proof
      assume e: "eligible usd s1 b"
      then have "mGet s1 b \<noteq> None" by (auto simp: eligible_def split: option.splits)
      with sweepKeys_spec [OF assms] have "mGet s1 b = mGet s b" "\<not> (b \<in> set (mKeys s) \<and> eligible usd s b)"
        by (metis)+
      with e eligible_cong [of s1 b s usd] eligible_in_keys [of usd s b] show False by auto
    qed
  qed
  from True assms have "sweep usd s c = sweep usd s1 c1"
    by (subst sweep.simps) simp
  also have "\<dots> = (s1, c1)"
    by (subst sweep.simps) (simp add: sweepKeys_none [OF none])
  finally show ?thesis .
qed

text \<open>
  Claim C7. Let the committed snapshot be \<open>s\<close> and let the sweep of the effect of lines
  544-569 end with snapshot \<open>s'\<close> and cache \<open>c'\<close>. An atom of \<open>s\<close> is gone from \<open>s'\<close> exactly when
  it is eligible (no read or write promise, dependents empty or only itself, no subscriber);
  every other atom keeps its state. The sweep has stopped at a fixed point: one more pass
  over \<open>s'\<close> deletes nothing. The cache holds the last state of every evicted atom, the
  effect stores that cache and, when something was evicted, hands \<open>s'\<close> to \<^verbatim>\<open>setState\<close>; and a
  later read with that cache, in a snapshot without the atom, returns the cached state
  and puts it back, without calling the atom's read function (the world is unchanged).
\<close>

theorem sweep_evicts_exactly_the_eligible:
  assumes last: "lastStateRef p = Some s"
    and sw: "sweep (used p) s (atomStateCache p) = (s', c')"
  shows "(\<forall>a \<in> set (mKeys s). (mGet s' a = None) = eligible (used p) s a) \<and>
         (\<forall>a. \<not> eligible (used p) s a \<longrightarrow> mGet s' a = mGet s a) \<and>
         sweepKeys (used p) (mKeys s') s' c' False = (s', c', False) \<and>
         (\<forall>a. eligible (used p) s a \<longrightarrow> mGet c' a = mGet s a) \<and>
         atomStateCache (gcEffect p) = c' \<and>
         (s' \<noteq> s \<longrightarrow> lastStateRef (gcEffect p) = None \<and>
                    last (setStateOrigCalls (gcEffect p)) = Put s') \<and>
         (\<forall>a st n d s'' w.
            eligible (used p) s a \<and> mGet s a = Some st \<and> mGet s'' a = None \<longrightarrow>
            readAtomState (Suc n) d (Some c') a s'' w = Some ((st, mSet s'' a st), w))"
proof -
  obtain s1 c1 dl where pass: "sweepKeys (used p) (mKeys s) s (atomStateCache p) False = (s1, c1, dl)"
    by (metis surj_pair)
  from sweep_one_pass [OF pass] sw have eq: "s1 = s'" "c1 = c'" by simp_all
  note spec = sweepKeys_spec [OF pass, unfolded eq]
  have get: "mGet s' a = (if eligible (used p) s a then None else mGet s a)" for a
    using spec eligible_in_keys [of "used p" s a] by auto
  have cache: "eligible (used p) s a \<Longrightarrow> mGet c' a = mGet s a" for a
    using spec eligible_in_keys [of "used p" s a] by auto
  have a1: "\<forall>a \<in> set (mKeys s). (mGet s' a = None) = eligible (used p) s a"
  proof
    fix a assume "a \<in> set (mKeys s)"
    then have "mGet s a \<noteq> None"
      by (auto simp: mKeys_def mGet_def map_of_eq_None_iff)
    then show "(mGet s' a = None) = eligible (used p) s a"
      by (simp add: get)
  qed
  have none: "\<forall>b \<in> set (mKeys s'). \<not> eligible (used p) s' b"
  proof
    fix b assume "b \<in> set (mKeys s')"
    show "\<not> eligible (used p) s' b"
    proof
      assume e: "eligible (used p) s' b"
      then have "mGet s' b \<noteq> None" by (auto simp: eligible_def split: option.splits)
      then have "mGet s' b = mGet s b" "\<not> eligible (used p) s b"
        using get [of b] by (auto split: if_splits)
      with e eligible_cong [of s' b s "used p"] show False by auto
    qed
  qed
  have a3: "sweepKeys (used p) (mKeys s') s' c' False = (s', c', False)"
    by (rule sweepKeys_none [OF none])
  have a5: "atomStateCache (gcEffect p) = c'"
    using last sw by (simp add: gcEffect_def setState_def Let_def split: option.splits)
  have a6: "s' \<noteq> s \<longrightarrow> lastStateRef (gcEffect p) = None \<and>
                    last (setStateOrigCalls (gcEffect p)) = Put s'"
    using last sw by (simp add: gcEffect_def setState_def Let_def split: option.splits)
  have a7: "readAtomState (Suc n) d (Some c') a s'' w = Some ((st, mSet s'' a st), w)"
    if "eligible (used p) s a" "mGet s a = Some st" "mGet s'' a = None" for a st n d s'' w
    using that cache [of a] by simp
  show ?thesis
    using a1 get cache a3 a5 a6 a7 by auto
qed


text \<open>With no subscriber, atom 1 (no dependents) is evicted and cached; atom 0 stays, since
  its set of dependents still holds atom 1.\<close>

theorem sweep_evicts_exactly_the_eligible_witness:
  "sweep (used gcProvider) gcState (atomStateCache gcProvider)
     = ([(0, \<lparr>readE = None, readP = None, writeP = None, val = Num 0, deps = [0, 1]\<rparr>)],
        [(1, \<lparr>readE = None, readP = None, writeP = None, val = Num 0, deps = []\<rparr>)]) \<and>
   eligible (used gcProvider) gcState 1 \<and> \<not> eligible (used gcProvider) gcState 0 \<and>
   atomStateCache (gcEffect gcProvider)
     = [(1, \<lparr>readE = None, readP = None, writeP = None, val = Num 0, deps = []\<rparr>)] \<and>
   lastStateRef (gcEffect gcProvider) = None \<and>
   readAtomState 1 asyncDefs
       (Some [(1, \<lparr>readE = None, readP = None, writeP = None, val = Num 0, deps = []\<rparr>)]) 1
       [(0, \<lparr>readE = None, readP = None, writeP = None, val = Num 0, deps = [0, 1]\<rparr>)]
       initialWorld
     = Some ((\<lparr>readE = None, readP = None, writeP = None, val = Num 0, deps = []\<rparr>,
              [(0, \<lparr>readE = None, readP = None, writeP = None, val = Num 0, deps = [0, 1]\<rparr>),
               (1, \<lparr>readE = None, readP = None, writeP = None, val = Num 0, deps = []\<rparr>)]),
             initialWorld)"
proof -
  let ?st = "\<lparr>readE = None, readP = None, writeP = None, val = Num 0, deps = []\<rparr>"
  let ?s' = "[(0::atom, \<lparr>readE = None, readP = None, writeP = None, val = Num 0, deps = [0, 1]\<rparr>)]"
  have last: "lastStateRef gcProvider = Some gcState"
    by (simp add: gcProvider_def)
  have sw: "sweep (used gcProvider) gcState (atomStateCache gcProvider) = (?s', [(1, ?st)])"
    by code_simp
  have e1: "eligible (used gcProvider) gcState 1" and e0: "\<not> eligible (used gcProvider) gcState 0"
    by code_simp+
  have g: "mGet gcState 1 = Some ?st" "mGet ?s' 1 = None" "?s' \<noteq> gcState"
    by code_simp+
  from sweep_evicts_exactly_the_eligible [OF last sw] e1 g
  have "atomStateCache (gcEffect gcProvider) = [(1, ?st)]"
    "lastStateRef (gcEffect gcProvider) = None"
    "readAtomState (Suc 0) asyncDefs (Some [(1, ?st)]) 1 ?s' initialWorld
       = Some ((?st, mSet ?s' 1 ?st), initialWorld)"
    by blast+
  moreover have "mSet ?s' 1 ?st = [(0, \<lparr>readE = None, readP = None, writeP = None, val = Num 0, deps = [0, 1]\<rparr>), (1, ?st)]"
    by code_simp
  ultimately show ?thesis
    using sw e1 e0 by simp
qed

section \<open>The queue of write thunks\<close>

lemma runWriteThunk_unavailable: "lastStateRef p = None \<Longrightarrow> runWriteThunk p w = Some (None, p, w)"
  by (subst runWriteThunk.simps) simp

lemma runWriteThunk_empty: "writeThunkQueue p = [] \<Longrightarrow> runWriteThunk p w = Some (None, p, w)"
  by (subst runWriteThunk.simps) simp

lemma runWriteThunk_applyInOrder:
  "writeThunkQueue p = q \<Longrightarrow> lastStateRef p = Some l \<Longrightarrow>
     (case applyInOrder q (current p) w of
        None \<Rightarrow> runWriteThunk p w = None
      | Some (e, rest, s', w') \<Rightarrow>
          (\<exists>p'. runWriteThunk p w = Some (e, p', w') \<and> writeThunkQueue p' = rest \<and>
                current p' = s' \<and> lastStateRef p' = Some l))"
proof (induction q arbitrary: p w)
  case Nil
  then show ?case by (simp add: runWriteThunk_empty)
next
  case (Cons t ts)
  let ?p1 = "p\<lparr>writeThunkQueue := ts\<rparr>"
  have cur: "current ?p1 = current p" by (simp add: current_def split: option.splits)
  have prev: "(case pendingStateRef ?p1 of Some s \<Rightarrow> s | None \<Rightarrow> the (lastStateRef ?p1)) = current p"
    by (simp add: current_def split: option.splits)
  show ?case
  proof (cases "t (current p) w")
    case None
    with Cons.prems prev show ?thesis
      by (subst runWriteThunk.simps) (simp add: Let_def)
  next
    case (Some r)
    show ?thesis
    proof (cases r)
      case (Inl ew)
      obtain e w' where "ew = (e, w')" by (cases ew)
      with Some Inl Cons.prems prev cur show ?thesis
        by (subst runWriteThunk.simps) (simp add: Let_def)
    next
      case (Inr sw)
      obtain ns w' where sw: "sw = (ns, w')" by (cases sw)
      show ?thesis
      proof (cases "ns = current p")
        case True
        have run: "runWriteThunk p w = runWriteThunk ?p1 w'"
          using Some Inr sw True Cons.prems prev
          by (subst runWriteThunk.simps) (simp add: Let_def)
        from Cons.IH [of ?p1 w'] Cons.prems
        show ?thesis
          using Some Inr sw True run cur by (auto split: option.splits)
      next
        case False
        let ?p2 = "?p1\<lparr>pendingStateRef := Some ns, microtasks := Suc (microtasks ?p1)\<rparr>"
        have run: "runWriteThunk p w = runWriteThunk ?p2 w'"
          using Some Inr sw False Cons.prems prev
          by (subst runWriteThunk.simps) (simp add: Let_def)
        have "current ?p2 = ns" by (simp add: current_def)
        with Cons.IH [of ?p2 w'] Cons.prems
        show ?thesis
          using Some Inr sw run by (auto split: option.splits)
      qed
    qed
  qed
qed

text \<open>
  Claim C8. While no committed snapshot is available (\<^verbatim>\<open>lastStateRef.current\<close> is null),
  \<^verbatim>\<open>runWriteThunk\<close> applies nothing and leaves the queue as it is, and a new thunk is put
  behind the queued ones. When a committed snapshot is available, a new thunk is put behind
  the queued ones and the queue is run: the thunks are applied in submission order, each
  to the most recent pending-or-committed snapshot (\<open>applyInOrder\<close> from \<open>current p\<close>), up to
  the first that throws. And once the layout effect has stored the committed snapshot
  (nothing pending for it in \<^verbatim>\<open>readPendingMap\<close>), the queue is as it was, so that the effect
  of lines 572-580, which calls \<^verbatim>\<open>runWriteThunk\<close>, resumes with it.
\<close>

theorem write_thunks_applied_in_order:
  "(lastStateRef p = None \<longrightarrow>
      runWriteThunk p w = Some (None, p, w) \<and>
      (\<exists>p'. addWriteThunk t p w = Some (None, p', w) \<and>
            writeThunkQueue p' = writeThunkQueue p @ [t] \<and> lastStateRef p' = None)) \<and>
   (lastStateRef p = Some l \<longrightarrow>
      addWriteThunk t p w = runWriteThunk (p\<lparr>writeThunkQueue := writeThunkQueue p @ [t]\<rparr>) w \<and>
      (case applyInOrder (writeThunkQueue p) (current p) w of
         None \<Rightarrow> runWriteThunk p w = None
       | Some (e, rest, s', w') \<Rightarrow>
           (\<exists>p'. runWriteThunk p w = Some (e, p', w') \<and> writeThunkQueue p' = rest \<and>
                 current p' = s' \<and> lastStateRef p' = Some l))) \<and>
   (mGet (readPendingMap p) (state p) = None \<longrightarrow>
      lastStateRef (layoutEffect p) = Some (state p) \<and>
      writeThunkQueue (layoutEffect p) = writeThunkQueue p \<and>
      pendingStateRef (layoutEffect p) = pendingStateRef p)"
proof -
  have a: "\<exists>p'. addWriteThunk t p w = Some (None, p', w) \<and>
            writeThunkQueue p' = writeThunkQueue p @ [t] \<and> lastStateRef p' = None"
    if "lastStateRef p = None"
    using that by (simp add: addWriteThunk_def setState_def Let_def split: option.splits)
  have b: "addWriteThunk t p w = runWriteThunk (p\<lparr>writeThunkQueue := writeThunkQueue p @ [t]\<rparr>) w"
    if "lastStateRef p = Some l"
    using that by (simp add: addWriteThunk_def Let_def)
  have c: "lastStateRef (layoutEffect p) = Some (state p) \<and>
      writeThunkQueue (layoutEffect p) = writeThunkQueue p \<and>
      pendingStateRef (layoutEffect p) = pendingStateRef p"
    if "mGet (readPendingMap p) (state p) = None"
    using that by (simp add: layoutEffect_def)
  show ?thesis
    using a b c runWriteThunk_unavailable [of p w] runWriteThunk_applyInOrder [OF refl, of p l w]
    by blast
qed


text \<open>Two writes to \<^verbatim>\<open>count\<close> wait, 1 then 5; once the snapshot is committed they run in that
  order and \<^verbatim>\<open>count\<close> ends as 5.\<close>

theorem write_thunks_applied_in_order_witness:
  "runWriteThunk queuedProvider initialWorld = Some (None, queuedProvider, initialWorld) \<and>
   (\<exists>p'. addWriteThunk (\<lambda>prevState. writeAtomState 2 countDefs 2 prevState 0 (Num 7))
           queuedProvider initialWorld = Some (None, p', initialWorld) \<and>
         length (writeThunkQueue p') = 3 \<and> lastStateRef p' = None) \<and>
   lastStateRef (layoutEffect queuedProvider) = Some [] \<and>
   (\<exists>p' w'. runWriteThunk (layoutEffect queuedProvider) initialWorld = Some (None, p', w') \<and>
            writeThunkQueue p' = [] \<and>
            current p' = [(0, \<lparr>readE = None, readP = None, writeP = None, val = Num 5, deps = []\<rparr>)])"
proof -
  let ?t = "\<lambda>prevState. writeAtomState 2 countDefs 2 prevState 0 (Num 7)"
  let ?q = "layoutEffect queuedProvider"
  have none: "lastStateRef queuedProvider = None"
    by (simp add: queuedProvider_def initialProvider_def)
  have miss: "mGet (readPendingMap queuedProvider) (state queuedProvider) = None"
    by (simp add: queuedProvider_def initialProvider_def mGet_def)
  have st: "state queuedProvider = []"
    by (simp add: queuedProvider_def initialProvider_def initialState_def mCreate_def)
  have len: "length (writeThunkQueue queuedProvider) = 2"
    by (simp add: queuedProvider_def)
  note a = write_thunks_applied_in_order [of queuedProvider initialWorld ?t "[]"]
  from a none have a1: "runWriteThunk queuedProvider initialWorld = Some (None, queuedProvider, initialWorld)"
    and a2: "\<exists>p'. addWriteThunk ?t queuedProvider initialWorld = Some (None, p', initialWorld) \<and>
         length (writeThunkQueue p') = 3 \<and> lastStateRef p' = None"
    using len by auto
  from a miss st have c: "lastStateRef ?q = Some []" "writeThunkQueue ?q = writeThunkQueue queuedProvider"
    "pendingStateRef ?q = pendingStateRef queuedProvider"
    by auto
  have cur: "current ?q = []"
    using c by (simp add: current_def queuedProvider_def initialProvider_def)
  have "map_option (\<lambda>(e, rest, s, w). (e, length rest, s))
          (applyInOrder (writeThunkQueue queuedProvider) [] initialWorld)
        = Some (None, 0, [(0, \<lparr>readE = None, readP = None, writeP = None, val = Num 5, deps = []\<rparr>)])"
    by code_simp
  then obtain w' where ap: "applyInOrder (writeThunkQueue ?q) (current ?q) initialWorld
     = Some (None, [], [(0, \<lparr>readE = None, readP = None, writeP = None, val = Num 5, deps = []\<rparr>)], w')"
    unfolding c cur by auto
  from write_thunks_applied_in_order [of ?q initialWorld ?t "[]"] c(1) ap
  have "\<exists>p'. runWriteThunk ?q initialWorld = Some (None, p', w') \<and>
            writeThunkQueue p' = [] \<and>
            current p' = [(0, \<lparr>readE = None, readP = None, writeP = None, val = Num 5, deps = []\<rparr>)]"
    by auto
  with a1 a2 c(1) show ?thesis by blast
qed

section \<open>Errors of write functions\<close>

lemma rejectsWith_append:
  "rejectsWith (ps @ [Rejected e]) = (case rejectsWith ps of None \<Rightarrow> Some e | Some x \<Rightarrow> Some x)"
  by (induction ps rule: rejectsWith.induct) simp_all

lemma runWriteThunk_single:
  assumes "lastStateRef p = Some l" "writeThunkQueue p = []"
  shows "runWriteThunk (p\<lparr>writeThunkQueue := [t]\<rparr>) w =
           (case t (current p) w of
              None \<Rightarrow> None
            | Some (Inl (e, w')) \<Rightarrow> Some (Some e, p, w')
            | Some (Inr (s, w')) \<Rightarrow>
                Some (None,
                      (if s \<noteq> current p
                       then p\<lparr>pendingStateRef := Some s, microtasks := Suc (microtasks p)\<rparr>
                       else p), w'))"
proof -
  have p: "p\<lparr>writeThunkQueue := []\<rparr> = p"
    using assms(2) by simp
  show ?thesis
    using assms
    by (subst runWriteThunk.simps)
       (auto simp: Let_def p current_def runWriteThunk_empty split: option.splits sum.splits)
qed

text \<open>
  Claim C6, amended. Let a committed snapshot be available and the queue be empty, so that
  \<^verbatim>\<open>write\<close> runs its thunk at once, let the atom have no write in flight, and let its write
  function throw \<open>e\<close> after leaving the snapshot \<open>nextState\<close>. If no promise is pending for this
  write by then, \<^verbatim>\<open>write\<close> throws \<open>e\<close> to its caller and the provider is exactly as before.
  Otherwise \<^verbatim>\<open>write\<close> returns the overall promise, made over the pending promises followed
  by one rejected with \<open>e\<close>; it rejects, with \<open>e\<close> when none of the earlier ones is rejected
  already; and the snapshot the provider now holds is \<open>nextState\<close>, what the write function
  had set before it threw: the error is stored nowhere.
\<close>

theorem write_error_thrown_or_rejected:
  assumes last: "lastStateRef p = Some l" and empty: "writeThunkQueue p = []"
    and idle: "(case mGet (current p) atom of None \<Rightarrow> None | Some st \<Rightarrow> writeP st) = None"
    and body: "runWrite d (writeAtomState n d wid) (updateDependentsState (Suc n) d) atom
                 (writeOf d atom update) (current p)
                 (w\<lparr>pendingPromises := (pendingPromises w)(wid := [])\<rparr>)
               = Some (WThrew e, nextState, w')"
  shows "(pendingPromises w' wid = [] \<longrightarrow>
            writeAtom (Suc n) d wid atom update p w = Some (Throws e, p, w')) \<and>
         (pendingPromises w' wid \<noteq> [] \<longrightarrow>
            (\<exists>p'. writeAtom (Suc n) d wid atom update p w
                     = Some (ReturnsPromise (pendingPromises w' wid @ [Rejected e]), p',
                             push wid (Rejected e) w') \<and>
                  current p' = nextState \<and> lastStateRef p' = Some l \<and>
                  rejectsWith (pendingPromises w' wid @ [Rejected e]) \<noteq> None \<and>
                  (rejectsWith (pendingPromises w' wid) = None \<longrightarrow>
                     rejectsWith (pendingPromises w' wid @ [Rejected e]) = Some e)))"
proof -
  let ?w0 = "w\<lparr>pendingPromises := (pendingPromises w)(wid := [])\<rparr>"
  let ?t = "\<lambda>prevState. writeAtomState (Suc n) d wid prevState atom update"
  have add: "addWriteThunk ?t p ?w0 = runWriteThunk (p\<lparr>writeThunkQueue := [?t]\<rparr>) ?w0"
    using last empty by (simp add: addWriteThunk_def Let_def)
  have thunk: "?t (current p) ?w0 =
      (if pendingPromises w' wid \<noteq> [] then Some (Inr (nextState, push wid (Rejected e) w'))
       else Some (Inl (e, w')))"
    using idle body by simp
  show ?thesis
  proof (cases "pendingPromises w' wid = []")
    case True
    then show ?thesis
      using thunk add runWriteThunk_single [OF last empty, of ?t ?w0]
      by (simp add: writeAtom_def)
  next
    case False
    let ?p' = "if nextState \<noteq> current p
               then p\<lparr>pendingStateRef := Some nextState, microtasks := Suc (microtasks p)\<rparr>
               else p"
    have run: "addWriteThunk ?t p ?w0 = Some (None, ?p', push wid (Rejected e) w')"
      using False thunk add runWriteThunk_single [OF last empty, of ?t ?w0] by simp
    have pp: "pendingPromises (push wid (Rejected e) w') wid = pendingPromises w' wid @ [Rejected e]"
      by (simp add: push_def)
    have wa: "writeAtom (Suc n) d wid atom update p w
                = Some (ReturnsPromise (pendingPromises w' wid @ [Rejected e]), ?p',
                        push wid (Rejected e) w')"
      unfolding writeAtom_def run by (simp add: pp)
    have cur: "current ?p' = nextState" and l: "lastStateRef ?p' = Some l"
      using last by (auto simp: current_def)
    show ?thesis
      using False wa cur l by (auto simp: rejectsWith_append split: option.splits)
  qed
qed


text \<open>
  Claim C6 as stated fails when no committed snapshot is available: \<^verbatim>\<open>write\<close> on the atom
  whose write function throws returns nothing and throws nothing; the thunk waits in the
  queue. The error is thrown later, out of the run of the queue that the provider's effect
  starts after the commit.
\<close>

theorem write_error_not_rethrown_when_queued:
  "map_option (\<lambda>(r, p, w). (r, length (writeThunkQueue p), lastStateRef p))
     (writeAtom 1 throwDefs 0 0 Undefined initialProvider initialWorld)
     = Some (ReturnsVoid, 1, None) \<and>
   (case writeAtom 1 throwDefs 0 0 Undefined initialProvider initialWorld of
      Some (r, p, w) \<Rightarrow>
        (case render p w of
           Some (p', w') \<Rightarrow> map_option fst (runWriteThunk (layoutEffect p') w')
         | None \<Rightarrow> None)
    | None \<Rightarrow> None)
     = Some (Some (TError (Error ''boom'')))"
  by code_simp

text \<open>With the empty snapshot committed: writing atom 0 throws to the caller; writing atom 1
  returns a promise over the pending promise of atom 2's write and the rejected one.\<close>

theorem write_error_thrown_or_rejected_witness:
  "map_option (\<lambda>(r, p, w). (r, pendingStateRef p, lastStateRef p))
     (writeAtom 1 throwDefs 0 0 Undefined committedProvider initialWorld)
     = Some (Throws (TError (Error ''boom'')), None, Some []) \<and>
   (\<exists>p' w'. writeAtom 2 throwDefs 0 1 (Num 3) committedProvider initialWorld
              = Some (ReturnsPromise [Pending 0, Rejected (TError (Error ''boom''))], p', w') \<and>
            rejectsWith [Pending 0, Rejected (TError (Error ''boom''))]
              = Some (TError (Error ''boom'')) \<and>
            current p'
              = [(2, \<lparr>readE = None, readP = None, writeP = Some 1, val = Undefined, deps = []\<rparr>)])"
proof -
  let ?e = "TError (Error ''boom'')"
  let ?w0 = "initialWorld\<lparr>pendingPromises := (pendingPromises initialWorld)(0 := [])\<rparr>"
  let ?s = "[(2::atom, \<lparr>readE = None, readP = None, writeP = Some 1, val = Undefined, deps = []\<rparr>)]"
  let ?w' = "register (WriteSettles 0 1 0 2) (push 0 (Pending 0) (?w0\<lparr>nextP := Suc (Suc 0)\<rparr>))"
  have last: "lastStateRef committedProvider = Some []"
    and empty: "writeThunkQueue committedProvider = []"
    and cur: "current committedProvider = []"
    by (simp_all add: committedProvider_def initialProvider_def current_def)
  have idle: "(case mGet (current committedProvider) a of None \<Rightarrow> None | Some st \<Rightarrow> writeP st) = None"
    for a :: atom
    by (simp add: cur mGet_def)
  have body0: "runWrite throwDefs (writeAtomState 0 throwDefs 0) (updateDependentsState (Suc 0) throwDefs) 0
                 (writeOf throwDefs 0 Undefined) (current committedProvider) ?w0
               = Some (WThrew ?e, [], ?w0)"
    by (simp add: cur throwDefs_def)
  have body1: "runWrite throwDefs (writeAtomState (Suc 0) throwDefs 0)
                 (updateDependentsState (Suc (Suc 0)) throwDefs) 1
                 (writeOf throwDefs 1 (Num 3)) (current committedProvider) ?w0
               = Some (WThrew ?e, ?s, ?w')"
    by (simp add: cur throwDefs_def mGet_def initialWorld_def updateAtomState_def mSet_def
          spread_def newAtomState_def)
  have pp0: "pendingPromises ?w0 0 = []"
    by simp
  have pp1: "pendingPromises ?w' 0 = [Pending 0]"
    by (simp add: register_def push_def)
  from write_error_thrown_or_rejected [OF last empty idle body0] pp0
  have a: "writeAtom (Suc 0) throwDefs 0 0 Undefined committedProvider initialWorld
             = Some (Throws ?e, committedProvider, ?w0)"
    by blast
  from write_error_thrown_or_rejected [OF last empty idle body1] pp1
  obtain p' where b:
    "writeAtom (Suc (Suc 0)) throwDefs 0 1 (Num 3) committedProvider initialWorld
       = Some (ReturnsPromise ([Pending 0] @ [Rejected ?e]), p', push 0 (Rejected ?e) ?w')"
    "current p' = ?s" "rejectsWith ([Pending 0] @ [Rejected ?e]) = Some ?e"
    by auto
  from a have "map_option (\<lambda>(r, p, w). (r, pendingStateRef p, lastStateRef p))
     (writeAtom 1 throwDefs 0 0 Undefined committedProvider initialWorld)
     = Some (Throws ?e, None, Some [])"
    by (simp add: committedProvider_def initialProvider_def)
  with b show ?thesis
    by (simp add: numeral_2_eq_2)
qed

section \<open>Writes to one atom\<close>

lemma writeAtomState_deferred:
  "mGet s atom = Some st \<Longrightarrow> writeP st = Some wp \<Longrightarrow>
     writeAtomState (Suc m) d wid s atom u w
       = Some (Inr (s, push wid (Pending (nextP w))
                         (register (ThenWrite wp (nextP w) wid atom u) (w\<lparr>nextP := Suc (nextP w)\<rparr>))))"
  by (simp add: Let_def)

lemma clearWriteP_fields:
  "mGet s atom = Some st \<Longrightarrow>
     mGet (clearWriteP atom s) atom = Some (st\<lparr>writeP := None\<rparr>)"
  by (simp add: clearWriteP_def mGet_updateAtomState spread_def)

text \<open>
  When the first write's promise resolves, the mechanism does what the claim says. Two writes
  to atom 0, 1 and then 2, before the first settles: after each of the two calls of \<^verbatim>\<open>write\<close>
  the atom holds 1 and its write promise; the pending snapshot is published and committed;
  the first write's promise resolves and its callback clears \<^verbatim>\<open>writeP\<close>, the atom still
  holding 1; the microtask that publishes this runs before the continuation of the second
  write, which therefore only queues its thunk; after the next commit the queue runs and
  the atom holds 2.
\<close>

lemma deferred_write_applied_after_resolution:
  "(case writeAtom 2 asyncWriteDefs 0 0 (Num 1) committedProvider initialWorld of
      Some (r, p, w) \<Rightarrow>
     (case writeAtom 2 asyncWriteDefs 1 0 (Num 2) p w of
        Some (r1, p1, w1) \<Rightarrow>
     (case render (publish p1) w1 of
        Some (p2, w2) \<Rightarrow>
     (case onWriteSettled Resolves 0 (layoutEffect p2) w2 of
        Some (r3, p3, w3) \<Rightarrow>
     (case onWritePSettled Resolves 2 asyncWriteDefs 1 0 (Num 2) (publish p3) w3 of
        Some (r4, p4, w4) \<Rightarrow>
     (case render p4 w4 of
        Some (p5, w5) \<Rightarrow>
          Some (map_option fields (mGet (current p) 0), map_option fields (mGet (current p1) 0),
                map_option fields (mGet (current p3) 0), length (writeThunkQueue p4),
                map_option (\<lambda>(r, p, w). map_option fields (mGet (current p) 0))
                  (runWriteThunk (layoutEffect p5) w5))
      | None \<Rightarrow> None)
      | None \<Rightarrow> None) | None \<Rightarrow> None) | None \<Rightarrow> None) | None \<Rightarrow> None) | None \<Rightarrow> None)
   = Some (Some (None, None, Some 1, Num 1), Some (None, None, Some 1, Num 1),
           Some (None, None, None, Num 1), 1, Some (Some (None, None, Some 4, Num 2)))"
  by code_simp

text \<open>
  Claim C2, at two inputs where the code does otherwise. The atoms are those of
  \<open>asyncWriteDefs\<close>: the write function sets the atom and returns a promise.

  First conjunct: \<^verbatim>\<open>write(atom0, 1)\<close> and then \<^verbatim>\<open>write(atom0, 2)\<close> on a committed provider. The
  first stores 1 and the write promise 1 and registers its callback on promise 0, the one the
  write function returned; the second is deferred on promise 1. Then promise 0 rejects.
  Neither callback has a rejection handler, so nothing runs: the queue is empty, the atom
  still holds 1 and \<^verbatim>\<open>writeP\<close> is still promise 1, now rejected for good. The second write is
  never applied, and a third one, \<^verbatim>\<open>write(atom0, 3)\<close>, is deferred on the same promise.

  Second conjunct: a render reads atom 5, which leaves a pending snapshot in
  \<^verbatim>\<open>readPendingMap\<close>; before the provider's layout effect, \<^verbatim>\<open>write(atom0, 1)\<close> runs on the
  committed snapshot and leaves its result, with \<^verbatim>\<open>writeP\<close>, in \<^verbatim>\<open>pendingStateRef\<close>. The layout
  effect hands the read's snapshot to \<^verbatim>\<open>setState\<close>, which passes the write's snapshot to
  \<^verbatim>\<open>setStateOrig\<close> and then the read's, a plain state that replaces it. The rendered snapshot
  has no atom 0. \<^verbatim>\<open>write(atom0, 2)\<close> now finds no write promise and is applied at once, while
  the callback of the first write is still waiting for its promise.
\<close>

theorem later_write_lost_or_early:
  "(case writeAtom 2 asyncWriteDefs 0 0 (Num 1) committedProvider initialWorld of
      Some (r1, p1, w1) \<Rightarrow>
     (case writeAtom 2 asyncWriteDefs 1 0 (Num 2) p1 w1 of
        Some (r2, p2, w2) \<Rightarrow>
     (case onWriteSettled Rejects 0 p2 w2 of
        Some (r3, p3, w3) \<Rightarrow>
     (case onWritePSettled Rejects 2 asyncWriteDefs 1 0 (Num 2) p3 w3 of
        Some (r4, p4, w4) \<Rightarrow>
     (case writeAtom 2 asyncWriteDefs 2 0 (Num 3) p4 w4 of
        Some (r5, p5, w5) \<Rightarrow>
          Some (r1, r2, effs w2, map_option fields (mGet (current p2) 0),
                length (writeThunkQueue p4), map_option fields (mGet (current p4) 0),
                r5, map_option fields (mGet (current p5) 0))
      | None \<Rightarrow> None) | None \<Rightarrow> None) | None \<Rightarrow> None) | None \<Rightarrow> None) | None \<Rightarrow> None)
   = Some (ReturnsPromise [Pending 0], ReturnsPromise [Pending 2],
           [WriteSettles 0 1 0 0, ThenWrite 1 2 1 0 (Num 2)],
           Some (None, None, Some 1, Num 1), 0, Some (None, None, Some 1, Num 1),
           ReturnsPromise [Pending 3], Some (None, None, Some 1, Num 1)) \<and>
   (case readAtom 2 asyncWriteDefs (state committedProvider) 5 committedProvider initialWorld of
      Some (st5, p1, w1) \<Rightarrow>
     (case writeAtom 2 asyncWriteDefs 0 0 (Num 1) p1 w1 of
        Some (r1, p2, w2) \<Rightarrow>
     (case render (layoutEffect p2) w2 of
        Some (p3, w3) \<Rightarrow>
     (case writeAtom 2 asyncWriteDefs 1 0 (Num 2) (layoutEffect (publish p3)) w3 of
        Some (r2, p4, w4) \<Rightarrow>
          Some (r1, map_option fields (mGet (current p2) 0),
                map (\<lambda>c. case c of Put s \<Rightarrow> map_option fields (mGet s 0) | Apply f \<Rightarrow> None)
                  (setStateOrigCalls (layoutEffect p2)),
                map_option fields (mGet (state p3) 0),
                r2, map_option fields (mGet (current p4) 0), effs w4)
      | None \<Rightarrow> None) | None \<Rightarrow> None) | None \<Rightarrow> None) | None \<Rightarrow> None)
   = Some (ReturnsPromise [Pending 0], Some (None, None, Some 1, Num 1),
           [Some (None, None, Some 1, Num 1), None], None,
           ReturnsPromise [Pending 2], Some (None, None, Some 3, Num 2),
           [WriteSettles 0 1 0 0, WriteSettles 2 3 1 0])"
  by code_simp

section \<open>What holds of every reachable snapshot\<close>

lemma wellFormed_present:
  "wellFormed d s h \<Longrightarrow> mGet s a = Some st \<Longrightarrow> wfAtomState d a (h a) st"
  unfolding wellFormed_def by blast

lemma wellFormed_absent:
  "wellFormed d s h \<Longrightarrow> mGet s a = None \<Longrightarrow> h a = None"
  unfolding wellFormed_def by blast

lemma wellFormedI:
  assumes "\<And>a. mGet s a = None \<Longrightarrow> h a = None"
    and "\<And>a st. mGet s a = Some st \<Longrightarrow> wfAtomState d a (h a) st"
  shows "wellFormed d s h"
  unfolding wellFormed_def using assms by blast

lemma wfAtomState_fields:
  "fields st' = fields st \<Longrightarrow> wfAtomState d a lv st' = wfAtomState d a lv st"
  by (simp add: wfAtomState_def fields_def)

lemma wellFormed_fields:
  assumes "\<And>a. map_option fields (mGet s' a) = map_option fields (mGet s a)"
    and "wellFormed d s h"
  shows "wellFormed d s' h"
proof (rule wellFormedI)
  fix a assume "mGet s' a = None"
  with assms(1) [of a] have "mGet s a = None" by (cases "mGet s a") auto
  with assms(2) show "h a = None" by (rule wellFormed_absent)
next
  fix a st' assume a: "mGet s' a = Some st'"
  with assms(1) [of a] obtain st where st: "mGet s a = Some st" "fields st' = fields st"
    by (cases "mGet s a") auto
  from wellFormed_present [OF assms(2) st(1)] st(2) show "wfAtomState d a (h a) st'"
    by (simp add: wfAtomState_fields [of st' st])
qed

lemma wellFormed_replaceDependencies:
  "wellFormed d s h \<Longrightarrow> wellFormed d (replaceDependencies atom s ds) h"
  by (rule wellFormed_fields [OF replaceDependencies_fields])

lemma wellFormed_mSet:
  assumes "wellFormed d s h" and "wfAtomState d a lv st"
  shows "wellFormed d (mSet s a st) (h(a := lv))"
proof (rule wellFormedI)
  fix b assume "mGet (mSet s a st) b = None"
  then show "(h(a := lv)) b = None"
    using wellFormed_absent [OF assms(1), of b] by (auto simp: mGet_mSet split: if_splits)
next
  fix b st' assume "mGet (mSet s a st) b = Some st'"
  then show "wfAtomState d b ((h(a := lv)) b) st'"
    using wellFormed_present [OF assms(1), of b st'] assms(2)
    by (auto simp: mGet_mSet split: if_splits)
qed

lemma wellFormed_updateAtomState:
  assumes "wellFormed d s h"
    and "wfAtomState d atom lv (spread (case mGet s atom of None \<Rightarrow> newAtomState | Some st \<Rightarrow> st) part)"
  shows "wellFormed d (updateAtomState atom s part None) (h(atom := lv))"
  using assms by (simp add: updateAtomState_def wellFormed_mSet)

lemma wfAtomState_new: "wfAtomState d a None newAtomState"
  by (simp add: wfAtomState_def newAtomState_def)

lemma wfAtomState_current:
  assumes "wellFormed d s h"
  shows "wfAtomState d atom (h atom) (case mGet s atom of None \<Rightarrow> newAtomState | Some st \<Rightarrow> st)"
proof (cases "mGet s atom")
  case None
  with wellFormed_absent [OF assms None] show ?thesis by (simp add: wfAtomState_new)
next
  case (Some st)
  with wellFormed_present [OF assms Some] show ?thesis by simp
qed

lemma finishRead_snapshot:
  "finishRead d atom out s ds w = ((st, s1), w1) \<Longrightarrow>
     s1 = (if out = ReturnedPromise then updateAtomState atom s (readPartial d atom out w) None
           else replaceDependencies atom (updateAtomState atom s (readPartial d atom out w) None) ds) \<and>
     st = the (mGet s1 atom)"
  by (cases out rule: outcome.exhaust; (cases "case out of Threw t \<Rightarrow> t" rule: thrown.exhaust)?)
     (auto simp: finishRead_def Let_def readPartial_def)

lemma wfAtomState_readPartial:
  "wfAtomState d atom (case out of Returned v \<Rightarrow> Some v | _ \<Rightarrow> lv)
     (spread st0 (readPartial d atom out w))"
  by (auto simp: wfAtomState_def spread_def readPartial_def split: outcome.splits thrown.splits)

lemma produced_finished:
  "(case out of Returned v \<Rightarrow> h(atom := Some v) | _ \<Rightarrow> h)
     = h(atom := (case out of Returned v \<Rightarrow> Some v | _ \<Rightarrow> h atom))"
  by (auto split: outcome.splits)

lemma wellFormed_finishRead:
  assumes "wellFormed d s h" and "finishRead d atom out s ds w = ((st, s1), w1)"
  shows "wellFormed d s1 (case out of Returned v \<Rightarrow> h(atom := Some v) | _ \<Rightarrow> h)"
proof -
  let ?u = "updateAtomState atom s (readPartial d atom out w) None"
  let ?h = "h(atom := (case out of Returned v \<Rightarrow> Some v | _ \<Rightarrow> h atom))"
  have "wellFormed d ?u ?h"
    by (rule wellFormed_updateAtomState [OF assms(1) wfAtomState_readPartial])
  then have "wellFormed d s1 ?h"
    using finishRead_snapshot [OF assms(2)] by (auto simp: wellFormed_replaceDependencies)
  then show ?thesis
    by (simp add: produced_finished)
qed

lemma wfAtomState_writeP:
  "wfAtomState d a lv st \<Longrightarrow>
     wfAtomState d a lv (spread st \<lparr>readE' = None, readP' = None, writeP' = Some x, val' = None\<rparr>)"
  by (simp add: wfAtomState_def spread_def)

lemma wellFormed_writeP:
  assumes "wellFormed d s h"
  shows "wellFormed d (updateAtomState atom s
            \<lparr>readE' = None, readP' = None, writeP' = Some x, val' = None\<rparr> None) h"
proof -
  from wellFormed_updateAtomState [OF assms wfAtomState_writeP [OF wfAtomState_current [OF assms]]]
  show ?thesis by simp
qed

lemma wellFormed_onReadResolved:
  assumes "wellFormed d s h"
  shows "wellFormed d (onReadResolved atom ds v p s) (if isCurrent s atom p then h(atom := Some v) else h)"
proof -
  let ?r = "replaceDependencies atom s ds"
  have wr: "wellFormed d ?r h" using assms by (rule wellFormed_replaceDependencies)
  have same: "(case mGet ?r atom of None \<Rightarrow> None | Some st \<Rightarrow> readP st)
              = (case mGet s atom of None \<Rightarrow> None | Some st \<Rightarrow> readP st)"
    using replaceDependencies_fields [of atom s ds atom]
    by (cases "mGet s atom"; cases "mGet ?r atom") (auto simp: fields_def)
  show ?thesis
  proof (cases "isCurrent s atom p")
    case True
    then have cur: "readP (case mGet ?r atom of None \<Rightarrow> newAtomState | Some st \<Rightarrow> st) = Some p"
      using same by (auto simp: isCurrent_def split: option.splits)
    have "wfAtomState d atom (Some v)
            (spread (case mGet ?r atom of None \<Rightarrow> newAtomState | Some st \<Rightarrow> st)
               \<lparr>readE' = Some None, readP' = Some None, writeP' = None, val' = Some v\<rparr>)"
      by (simp add: wfAtomState_def spread_def)
    from wellFormed_updateAtomState [OF wr this] cur True show ?thesis
      by (simp add: onReadResolved_def updateAtomState_def)
  next
    case False
    then have "readP (case mGet ?r atom of None \<Rightarrow> newAtomState | Some st \<Rightarrow> st) \<noteq> Some p"
      using same by (auto simp: isCurrent_def newAtomState_def split: option.splits)
    with wr False show ?thesis
      by (simp add: onReadResolved_def updateAtomState_def)
  qed
qed

lemma wellFormed_onReadRejected:
  assumes "wellFormed d s h"
  shows "wellFormed d (onReadRejected atom ds e p s) h"
proof -
  let ?r = "replaceDependencies atom s ds"
  let ?st = "case mGet ?r atom of None \<Rightarrow> newAtomState | Some st \<Rightarrow> st"
  have wr: "wellFormed d ?r h" using assms by (rule wellFormed_replaceDependencies)
  show ?thesis
  proof (cases "readP ?st = Some p")
    case True
    from wfAtomState_current [OF wr, of atom] True
    have "wfAtomState d atom (h atom)
            (spread ?st \<lparr>readE' = Some (Some (toError e)), readP' = Some None, writeP' = None, val' = None\<rparr>)"
      by (simp add: wfAtomState_def spread_def)
    from wellFormed_updateAtomState [OF wr this] True show ?thesis
      by (simp add: onReadRejected_def updateAtomState_def)
  next
    case False
    with wr show ?thesis
      by (simp add: onReadRejected_def updateAtomState_def)
  qed
qed

lemma wellFormed_reachable: "reachable d s h \<Longrightarrow> wellFormed d s h"
proof (induction rule: reachable.induct)
  case initial
  show ?case
    by (simp add: wellFormed_def initialState_def mGet_mCreate)
next
  case (finished s h atom out ds w st s' w')
  then show ?case by (simp add: wellFormed_finishRead)
next
  case (restored s h s0 h0 atom st)
  then show ?case by (intro wellFormed_mSet) (auto intro: wellFormed_present)
next
  case (setByWrite s h atom v)
  then show ?case
    by (intro wellFormed_updateAtomState) (simp_all add: wfAtomState_def spread_def)
next
  case (writeStarted s h atom wp)
  then show ?case by (simp add: wellFormed_writeP)
next
  case (cleared s h atom)
  then show ?case by (simp add: clearWriteP_def wellFormed_writeP)
next
  case (resolved s h atom ds v p)
  then show ?case by (simp add: wellFormed_onReadResolved)
next
  case (rejected s h atom ds e p)
  then show ?case by (simp add: wellFormed_onReadRejected)
next
  case (dependentAdded s h atom dependent)
  have "map_option fields (mGet (addDependent atom dependent s) a) = map_option fields (mGet s a)" for a
    by (auto simp: addDependent_def mGet_mSet fields_def split: option.splits)
  from wellFormed_fields [OF this dependentAdded.IH] show ?case .
next
  case (evicted s h atom)
  then show ?case
    by (auto simp: wellFormed_def mGet_mDel)
next
  case (merged s h t k)
  then show ?case
    by (auto simp: wellFormed_def mGet_mMerge split: option.splits)
qed


lemma attainable_finishRead:
  "attainable d s \<Longrightarrow> finishRead d atom out s ds w = ((st, s1), w1) \<Longrightarrow> attainable d s1"
  unfolding attainable_def by (blast intro: reachable.finished)

lemma attainable_runRead:
  assumes rec: "\<And>a s w st s' w'. attainable d s \<Longrightarrow> rec a s w = Some ((st, s'), w') \<Longrightarrow>
                  attainable d s'"
  shows "attainable d s \<Longrightarrow> runRead d rec atom body s ds w = Some (out, s', ds', w') \<Longrightarrow>
           attainable d s'"
proof (induction body arbitrary: s ds w)
  case (Get a k)
  show ?case
  proof (cases "a = atom")
    case True
    with Get.prems Get.IH [OF rangeI] show ?thesis
      by (auto split: option.splits)
  next
    case False
    with Get.prems obtain aState s1 w1 where r: "rec a s w = Some ((aState, s1), w1)"
      by (auto split: option.splits)
    from rec [OF Get.prems(1) r] have a1: "attainable d s1" .
    from Get.prems(2) False r Get.IH [OF rangeI a1] a1 show ?thesis
      by (auto split: option.splits)
  qed
qed auto

lemma attainable_readAtomState:
  "fromAttainable d cacheOpt \<Longrightarrow> attainable d s \<Longrightarrow>
     readAtomState n d cacheOpt atom s w = Some ((st, s'), w') \<Longrightarrow> attainable d s'"
proof (induction n arbitrary: atom s w st s' w')
  case 0
  then show ?case by simp
next
  case (Suc n)
  show ?case
  proof (cases "case cacheOpt of None \<Rightarrow> None
                | Some cache \<Rightarrow>
                    (case mGet s atom of
                       Some atomState \<Rightarrow> Some (atomState, s)
                     | None \<Rightarrow> (case mGet cache atom of
                                  Some atomState \<Rightarrow> Some (atomState, mSet s atom atomState)
                                | None \<Rightarrow> None))")
    case (Some r)
    then obtain cache where c: "cacheOpt = Some cache" by (cases cacheOpt) auto
    show ?thesis
    proof (cases "mGet s atom")
      case (Some atomState)
      with Suc.prems c show ?thesis by simp
    next
      case None
      with Some c obtain atomState where hit: "mGet cache atom = Some atomState"
        by (cases "mGet cache atom") auto
      with Suc.prems(3) c None have s': "s' = mSet s atom atomState" by auto
      from Suc.prems(1) c hit obtain s0 h0 where "reachable d s0 h0" "mGet s0 atom = Some atomState"
        unfolding fromAttainable_def by blast
      with Suc.prems(2) None show ?thesis
        unfolding s' attainable_def by (blast intro: reachable.restored)
    qed
  next
    case None
    with Suc.prems(3) obtain out s1 ds1 w1 where
      run: "runRead d (readAtomState n d cacheOpt) atom (readOf d atom) s [] w = Some (out, s1, ds1, w1)"
      and fin: "finishRead d atom out s1 ds1 w1 = ((st, s'), w')"
      by (auto split: option.splits)
    have "attainable d s1"
      by (rule attainable_runRead [OF Suc.IH [OF Suc.prems(1)] Suc.prems(2) run])
    then show ?thesis
      using fin by (rule attainable_finishRead)
  qed
qed

lemma attainable_forEachDependent:
  assumes rd: "\<And>a s w st s' w'. attainable d s \<Longrightarrow> rd a s w = Some ((st, s'), w') \<Longrightarrow> attainable d s'"
    and rec: "\<And>a s w s' w'. attainable d s \<Longrightarrow> rec a s w = Some (s', w') \<Longrightarrow> attainable d s'"
  shows "attainable d s \<Longrightarrow> forEachDependent rd rec atom xs s w = Some (s', w') \<Longrightarrow>
           attainable d s'"
proof (induction xs arbitrary: s w)
  case Nil
  then show ?case by simp
next
  case (Cons x xs)
  show ?case
  proof (cases "x = atom \<or> mGet s x = None")
    case True
    with Cons show ?thesis by auto
  next
    case False
    with Cons.prems(2) obtain xState s1 w1 where r: "rd x s w = Some ((xState, s1), w1)"
      by (auto split: option.splits)
    from rd [OF Cons.prems(1) r] have a1: "attainable d s1" .
    show ?thesis
    proof (cases "readP xState")
      case (Some p)
      with Cons.prems(2) False r Cons.IH [OF a1] show ?thesis
        by auto
    next
      case None
      with Cons.prems(2) False r obtain s2 w2 where u: "rec x s1 w1 = Some (s2, w2)"
        and rest: "forEachDependent rd rec atom xs s2 w2 = Some (s', w')"
        by (auto split: option.splits)
      from rec [OF a1 u] have "attainable d s2" .
      from Cons.IH [OF this rest] show ?thesis .
    qed
  qed
qed

lemma fromAttainable_None: "fromAttainable d None"
  by (simp add: fromAttainable_def)

lemma attainable_updateDependentsState:
  "attainable d s \<Longrightarrow> updateDependentsState n d atom s w = Some (s', w') \<Longrightarrow> attainable d s'"
proof (induction n arbitrary: atom s w s' w')
  case 0
  then show ?case by simp
next
  case (Suc n)
  show ?case
  proof (cases "mGet s atom")
    case None
    with Suc.prems show ?thesis by simp
  next
    case (Some atomState)
    with Suc.prems(2) have
      "forEachDependent (readAtomState (Suc n) d None) (updateDependentsState n d)
         atom (deps atomState) s w = Some (s', w')"
      by simp
    from attainable_forEachDependent [OF _ _ Suc.prems(1) this]
      attainable_readAtomState [OF fromAttainable_None] Suc.IH
    show ?thesis by blast
  qed
qed

lemma attainable_set:
  "attainable d s \<Longrightarrow>
     attainable d (updateAtomState atom s
        \<lparr>readE' = Some None, readP' = Some None, writeP' = None, val' = Some v\<rparr> None)"
  unfolding attainable_def by (blast intro: reachable.setByWrite)

lemma attainable_writeP:
  "attainable d s \<Longrightarrow>
     attainable d (updateAtomState atom s
        \<lparr>readE' = None, readP' = None, writeP' = Some (Some wp), val' = None\<rparr> None)"
  unfolding attainable_def by (blast intro: reachable.writeStarted)

lemma attainable_runWrite:
  assumes rec: "\<And>s a v w s' w'. attainable d s \<Longrightarrow> rec s a v w = Some (Inr (s', w')) \<Longrightarrow>
                  attainable d s'"
    and upd: "\<And>a s w s' w'. attainable d s \<Longrightarrow> upd a s w = Some (s', w') \<Longrightarrow> attainable d s'"
  shows "attainable d s \<Longrightarrow> runWrite d rec upd atom body s w = Some (out, s', w') \<Longrightarrow>
           attainable d s'"
proof (induction body arbitrary: s w)
  case (WGet a k)
  from WGet.prems WGet.IH [OF rangeI] show ?case
    by auto
next
  case (WSet a v rest)
  show ?case
  proof (cases "a = atom")
    case True
    let ?s0 = "updateAtomState a s
                 \<lparr>readE' = Some None, readP' = Some None, writeP' = None, val' = Some v\<rparr> None"
    have a0: "attainable d ?s0"
      by (rule attainable_set [OF WSet.prems(1)])
    from WSet.prems(2) True obtain s1 w1 where u: "upd a ?s0 w = Some (s1, w1)"
      and rest: "runWrite d rec upd atom rest s1 w1 = Some (out, s', w')"
      by (auto split: option.splits)
    from WSet.IH [OF upd [OF a0 u] rest] show ?thesis .
  next
    case False
    show ?thesis
    proof (cases "rec s a v w")
      case None
      with WSet.prems(2) False show ?thesis by simp
    next
      case (Some r)
      show ?thesis
      proof (cases r)
        case (Inl tw)
        with WSet.prems Some False show ?thesis
          by (auto split: prod.splits)
      next
        case (Inr sw)
        obtain s1 w1 where sw: "sw = (s1, w1)" by (cases sw)
        with WSet.prems(2) Some Inr False
        have rest: "runWrite d rec upd atom rest s1 w1 = Some (out, s', w')"
          by simp
        from rec [OF WSet.prems(1)] Some Inr sw have "attainable d s1" by simp
        from WSet.IH [OF this rest] show ?thesis .
      qed
    qed
  qed
qed auto

lemma attainable_writeAtomState:
  "attainable d s \<Longrightarrow> writeAtomState n d wid s atom u w = Some (Inr (s', w')) \<Longrightarrow>
     attainable d s'"
proof (induction n arbitrary: atom s u w s' w')
  case 0
  then show ?case by simp
next
  case (Suc n)
  show ?case
  proof (cases "case mGet s atom of None \<Rightarrow> None | Some prevAtomState \<Rightarrow> writeP prevAtomState")
    case (Some wp)
    with Suc.prems show ?thesis
      by (simp add: Let_def)
  next
    case None
    with Suc.prems(2) obtain out s1 w1 where
      run: "runWrite d (writeAtomState n d wid) (updateDependentsState (Suc n) d) atom
              (writeOf d atom u) s w = Some (out, s1, w1)"
      by (auto split: option.splits)
    have a1: "attainable d s1"
      by (rule attainable_runWrite [OF Suc.IH attainable_updateDependentsState Suc.prems(1) run])
    from Suc.prems(2) None run have
      "s' = s1 \<or> s' = updateAtomState atom s1
                        \<lparr>readE' = None, readP' = None, writeP' = Some (Some (Suc (nextP w1))),
                         val' = None\<rparr> None"
      by (auto simp: Let_def split: wout.splits if_splits)
    with a1 show ?thesis
      by (auto intro: attainable_writeP)
  qed
qed

text \<open>A read whose read function threw a promise, that of a dependency which is pending,
  stores that promise as the atom's own \<^verbatim>\<open>readP\<close> with the atom's \<^verbatim>\<open>init\<close> as value and
  registers no callback: no settlement changes this state, which stays until the atom is
  read again.\<close>

lemma finishRead_thrown_promise:
  assumes "finishRead d atom (Threw (TPromise p)) s ds w = ((st, s1), w1)"
  shows "mGet s1 atom = Some st \<and> readP st = Some p \<and> readE st = None \<and>
         val st = initOf d atom \<and> w1 = w"
proof -
  let ?s0 = "updateAtomState atom s (readPartial d atom (Threw (TPromise p)) w) None"
  have s1: "s1 = replaceDependencies atom ?s0 ds" and st: "st = the (mGet s1 atom)"
    using finishRead_snapshot [OF assms] by simp_all
  have w1: "w1 = w"
    using assms by (simp add: finishRead_def Let_def)
  obtain st0 where "mGet ?s0 atom = Some st0" "readP st0 = Some p" "readE st0 = None"
    "val st0 = initOf d atom"
    by (simp add: mGet_updateAtomState spread_def readPartial_def)
  from replaceDependencies_Some [OF this(1), of atom ds] this(2-) s1 st w1
  show ?thesis by auto
qed

text \<open>
  Claim C4, amended. In every reachable snapshot and for every atom in it: \<^verbatim>\<open>readE\<close> and
  \<^verbatim>\<open>readP\<close> are not both set; while \<^verbatim>\<open>readP\<close> is set the value is the atom's \<^verbatim>\<open>init\<close>, whether or
  not the atom has resolved before; while \<^verbatim>\<open>readE\<close> is set the value is \<^verbatim>\<open>undefined\<close> or the
  atom's \<^verbatim>\<open>init\<close>; and while neither is set the value is the last value produced for the atom
  (returned by its read function, set by a write, or delivered by the resolve callback of
  its read promise while that promise was still its \<^verbatim>\<open>readP\<close>), \<^verbatim>\<open>undefined\<close> if there was
  none. Every snapshot that a read (with a cache of states that reachable snapshots have
  held, or with none), a write thunk that returns, or an update of the dependents makes of
  a reachable snapshot is reachable again, so that this holds across all of them; the
  settlement callbacks, the clearing thunk, the sweep's deletions and the merges are
  updates of \<open>reachable\<close> themselves.
\<close>

theorem reachable_snapshots_well_formed:
  assumes "reachable d s h" and "mGet s a = Some st"
  shows "(readE st = None \<or> readP st = None) \<and>
         (readP st \<noteq> None \<longrightarrow> val st = initOf d a) \<and>
         (readE st \<noteq> None \<longrightarrow> val st = Undefined \<or> val st = initOf d a) \<and>
         (readE st = None \<and> readP st = None \<longrightarrow>
            val st = (case h a of Some v \<Rightarrow> v | None \<Rightarrow> Undefined)) \<and>
         (\<forall>n cacheOpt atom w r s' w'.
            fromAttainable d cacheOpt \<and> readAtomState n d cacheOpt atom s w = Some ((r, s'), w') \<longrightarrow>
            (\<exists>h'. reachable d s' h')) \<and>
         (\<forall>n wid atom u w s' w'.
            writeAtomState n d wid s atom u w = Some (Inr (s', w')) \<longrightarrow> (\<exists>h'. reachable d s' h')) \<and>
         (\<forall>n atom w s' w'.
            updateDependentsState n d atom s w = Some (s', w') \<longrightarrow> (\<exists>h'. reachable d s' h'))"
proof -
  from wellFormed_present [OF wellFormed_reachable [OF assms(1)] assms(2)]
  have wf: "wfAtomState d a (h a) st" .
  from assms(1) have att: "attainable d s"
    unfolding attainable_def by blast
  have rd: "\<forall>n cacheOpt atom w r s' w'.
            fromAttainable d cacheOpt \<and> readAtomState n d cacheOpt atom s w = Some ((r, s'), w') \<longrightarrow>
            (\<exists>h'. reachable d s' h')"
  proof (intro allI impI)
    fix n cacheOpt atom w r s' w'
    assume "fromAttainable d cacheOpt \<and> readAtomState n d cacheOpt atom s w = Some ((r, s'), w')"
    then have "attainable d s'"
      using attainable_readAtomState [OF _ att] by blast
    then show "\<exists>h'. reachable d s' h'"
      by (simp add: attainable_def)
  qed
  have wr: "\<forall>n wid atom u w s' w'.
            writeAtomState n d wid s atom u w = Some (Inr (s', w')) \<longrightarrow> (\<exists>h'. reachable d s' h')"
  proof (intro allI impI)
    fix n wid atom u w s' w'
    assume "writeAtomState n d wid s atom u w = Some (Inr (s', w'))"
    from attainable_writeAtomState [OF att this] show "\<exists>h'. reachable d s' h'"
      by (simp add: attainable_def)
  qed
  have up: "\<forall>n atom w s' w'.
            updateDependentsState n d atom s w = Some (s', w') \<longrightarrow> (\<exists>h'. reachable d s' h')"
  proof (intro allI impI)
    fix n atom w s' w'
    assume "updateDependentsState n d atom s w = Some (s', w')"
    from attainable_updateDependentsState [OF att this] show "\<exists>h'. reachable d s' h'"
      by (simp add: attainable_def)
  qed
  from wf have inv: "(readE st = None \<or> readP st = None) \<and>
         (readP st \<noteq> None \<longrightarrow> val st = initOf d a) \<and>
         (readE st \<noteq> None \<longrightarrow> val st = Undefined \<or> val st = initOf d a) \<and>
         (readE st = None \<and> readP st = None \<longrightarrow>
            val st = (case h a of Some v \<Rightarrow> v | None \<Rightarrow> Undefined))"
    by (simp add: wfAtomState_def)
  show ?thesis
    using inv rd wr up by (intro conjI) (erule conjE | assumption)+
qed

text \<open>
  Claim C4 as stated fails for an atom that resolved and becomes pending again. Atom 1 of
  \<open>staleDefs\<close> is read and its promise resolves with 42; then 1 is written to atom 0, on which
  it depends, so that atom 1 is read again and is pending on a new promise. Its value is
  now the atom's \<^verbatim>\<open>init\<close> (undefined), not 42, the last value it resolved to.
\<close>

theorem resolved_value_dropped_when_pending_again:
  "(case readAtomState 2 staleDefs (Some []) 1 initialState initialWorld of
      Some ((st, s1), w1) \<Rightarrow>
        (case writeAtomState 2 staleDefs 0 (onReadResolved 1 [0] (Num 42) 0 s1) 0 (Num 1) w1 of
           Some (Inr (s3, w3)) \<Rightarrow> Some (s1, onReadResolved 1 [0] (Num 42) 0 s1, s3)
         | _ \<Rightarrow> None)
    | None \<Rightarrow> None)
   = Some (stalePending, staleResolved, staleRepending) \<and>
   map_option val (mGet staleResolved 1) = Some (Num 42) \<and>
   map_option val (mGet staleRepending 1) = Some Undefined \<and>
   map_option readP (mGet staleRepending 1) = Some (Some 1)"
  by code_simp

text \<open>The same line 276 stores \<^verbatim>\<open>undefined\<close> when the read function throws: atom 1 of
  \<open>flipDefs\<close> is read and holds 42; then 1 is written to atom 0, atom 1 is read again and
  throws, and its value is \<^verbatim>\<open>undefined\<close>.\<close>

lemma resolved_value_dropped_when_read_throws:
  "(case readAtomState 2 flipDefs (Some []) 1 initialState initialWorld of
      Some ((st, s1), w1) \<Rightarrow>
        (case writeAtomState 2 flipDefs 0 s1 0 (Num 1) w1 of
           Some (Inr (s2, w2)) \<Rightarrow>
             Some (map_option fields (mGet s1 1), map_option fields (mGet s2 1))
         | _ \<Rightarrow> None)
    | None \<Rightarrow> None)
   = Some (Some (None, None, None, Num 42), Some (Some (Error ''boom''), None, None, Undefined))"
  by code_simp

text \<open>A state that the engine makes for an atom that has none, on the paths for which line
  110 warns, has no value: atom 2 of \<open>throwDefs\<close>, whose write function returns a promise and
  whose \<^verbatim>\<open>init\<close> is 0, is written before it is ever read, and holds \<^verbatim>\<open>undefined\<close>.\<close>

lemma unread_atom_written_holds_undefined:
  "map_option (map_sum fst (\<lambda>(s, w). map_option fields (mGet s 2)))
     (writeAtomState 1 throwDefs 0 initialState 2 (Num 5) initialWorld)
     = Some (Inr (Some (None, None, Some 1, Undefined))) \<and>
   initOf throwDefs 2 = Num 0"
  by code_simp

lemma finishRead_at:
  "fst (finishRead d atom out s ds w) = (st, s') \<Longrightarrow>
     \<exists>w'. finishRead d atom out s ds w = ((st, s'), w')"
  by (cases "finishRead d atom out s ds w") auto

lemma staleRepending_reachable: "reachable staleDefs staleRepending staleProduced"
proof -
  let ?st0 = "\<lparr>readE = None, readP = None, writeP = None, val = Num 0, deps = [0]\<rparr>"
  let ?s0 = "[(0, ?st0)]"
  let ?h0 = "(\<lambda>a. None)(0 := Some (Num 0))"
  let ?st1 = "\<lparr>readE = None, readP = Some 0, writeP = None, val = Undefined, deps = []\<rparr>"
  let ?sb = "[(0, \<lparr>readE = None, readP = None, writeP = None, val = Num 1, deps = [0, 1]\<rparr>),
              (1, \<lparr>readE = None, readP = None, writeP = None, val = Num 42, deps = []\<rparr>)]"
  let ?st2 = "\<lparr>readE = None, readP = Some 1, writeP = None, val = Undefined, deps = []\<rparr>"
  have "fst (finishRead staleDefs 0 (Returned (Num 0)) initialState [0] initialWorld) = (?st0, ?s0)"
    by code_simp
  from reachable.finished [OF reachable.initial, of staleDefs] finishRead_at [OF this]
  have 1: "reachable staleDefs ?s0 ?h0"
    by fastforce
  have "fst (finishRead staleDefs 1 ReturnedPromise ?s0 [0] initialWorld) = (?st1, stalePending)"
    by code_simp
  from finishRead_at [OF this] reachable.finished [OF 1]
  have 2: "reachable staleDefs stalePending ?h0"
    by fastforce
  have cur: "isCurrent stalePending 1 0"
    by code_simp
  have res: "onReadResolved 1 [0] (Num 42) 0 stalePending = staleResolved"
    by code_simp
  from reachable.resolved [OF 2, of 1 "[0]" "Num 42" 0] cur res
  have 3: "reachable staleDefs staleResolved (?h0(1 := Some (Num 42)))"
    by simp
  have "updateAtomState 0 staleResolved
          \<lparr>readE' = Some None, readP' = Some None, writeP' = None, val' = Some (Num 1)\<rparr> None = ?sb"
    by code_simp
  with reachable.setByWrite [OF 3, of 0 "Num 1"]
  have 4: "reachable staleDefs ?sb (?h0(1 := Some (Num 42), 0 := Some (Num 1)))"
    by simp
  have "fst (finishRead staleDefs 1 ReturnedPromise ?sb [0] (initialWorld\<lparr>nextP := 1\<rparr>))
          = (?st2, staleRepending)"
    by code_simp
  from finishRead_at [OF this] reachable.finished [OF 4]
  have 5: "reachable staleDefs staleRepending (?h0(1 := Some (Num 42), 0 := Some (Num 1)))"
    by fastforce
  have "?h0(1 := Some (Num 42), 0 := Some (Num 1)) = staleProduced"
    by (auto simp: staleProduced_def)
  with 5 show ?thesis by simp
qed

text \<open>The last snapshot of that run is reachable, with 42 as the last value produced for
  atom 1 and 1 for atom 0. Atom 1 is pending and holds its \<^verbatim>\<open>init\<close>; atom 0 holds the last
  value produced for it; and the snapshot that a read of a new atom makes is reachable.\<close>

theorem reachable_snapshots_well_formed_witness:
  "reachable staleDefs staleRepending staleProduced \<and>
   mGet staleRepending 1
     = Some \<lparr>readE = None, readP = Some 1, writeP = None, val = Undefined, deps = []\<rparr> \<and>
   staleProduced 1 = Some (Num 42) \<and> initOf staleDefs 1 = Undefined \<and>
   mGet staleRepending 0
     = Some \<lparr>readE = None, readP = None, writeP = None, val = Num 1, deps = [0, 1]\<rparr> \<and>
   staleProduced 0 = Some (Num 1) \<and>
   (\<exists>s' h'. map_option (snd \<circ> fst) (readAtomState 2 staleDefs (Some []) 2 staleRepending initialWorld)
              = Some s' \<and> mGet s' 2 \<noteq> None \<and> reachable staleDefs s' h')"
proof -
  let ?st1 = "\<lparr>readE = None, readP = Some 1, writeP = None, val = Undefined, deps = []\<rparr>"
  let ?st0 = "\<lparr>readE = None, readP = None, writeP = None, val = Num 1, deps = [0, 1]\<rparr>"
  have g1: "mGet staleRepending 1 = Some ?st1" and g0: "mGet staleRepending 0 = Some ?st0"
    by code_simp+
  have h: "staleProduced 1 = Some (Num 42)" "staleProduced 0 = Some (Num 1)"
    "initOf staleDefs 1 = Undefined"
    by (simp_all add: staleProduced_def staleDefs_def)
  note t1 = reachable_snapshots_well_formed [OF staleRepending_reachable g1]
  note t0 = reachable_snapshots_well_formed [OF staleRepending_reachable g0]
  from t1 have pend: "val ?st1 = initOf staleDefs 1"
    by simp
  from t0 have settled: "val ?st0 = (case staleProduced 0 of Some v \<Rightarrow> v | None \<Rightarrow> Undefined)"
    by simp
  obtain r s' w' where rd: "readAtomState 2 staleDefs (Some []) 2 staleRepending initialWorld
                              = Some ((r, s'), w')" and in2: "mGet s' 2 \<noteq> None"
  proof -
    have "map_option (\<lambda>((r, s'), w'). mGet s' 2 \<noteq> None)
            (readAtomState 2 staleDefs (Some []) 2 staleRepending initialWorld) = Some True"
      by code_simp
    then show ?thesis
      using that by (auto split: option.splits)
  qed
  have fa: "fromAttainable staleDefs (Some [])"
    by (simp add: fromAttainable_def mGet_def)
  from t1 have "\<forall>n cacheOpt atom w r s' w'.
      fromAttainable staleDefs cacheOpt \<and>
      readAtomState n staleDefs cacheOpt atom staleRepending w = Some ((r, s'), w') \<longrightarrow>
      (\<exists>h'. reachable staleDefs s' h')"
    by (elim conjE)
  from this [rule_format, OF conjI [OF fa rd]] obtain h' where "reachable staleDefs s' h'" ..
  with rd in2 have "\<exists>s' h'. map_option (snd \<circ> fst)
        (readAtomState 2 staleDefs (Some []) 2 staleRepending initialWorld) = Some s' \<and>
        mGet s' 2 \<noteq> None \<and> reachable staleDefs s' h'"
    by auto
  with staleRepending_reachable g1 g0 h show ?thesis
    by blast
qed

section \<open>A write reaches the dependents\<close>


lemma present_fields:
  "map_option fields (mGet s' a) = map_option fields (mGet s a) \<Longrightarrow>
     (mGet s' a = None) = (mGet s a = None)"
  by (cases "mGet s a"; cases "mGet s' a") auto


lemma finishRead_present:
  assumes "finishRead d atom out s ds w = ((st, s1), w1)"
  shows "mGet s1 atom = Some st \<and> (\<forall>b. mGet s b \<noteq> None \<longrightarrow> mGet s1 b \<noteq> None)"
proof -
  let ?u = "updateAtomState atom s (readPartial d atom out w) None"
  note f = finishRead_snapshot [OF assms]
  have u: "mGet ?u atom \<noteq> None" "\<And>b. mGet s b \<noteq> None \<Longrightarrow> mGet ?u b \<noteq> None"
    by (simp_all add: mGet_updateAtomState)
  have "mGet s1 b = None \<longleftrightarrow> mGet ?u b = None" for b
    using f present_fields [OF replaceDependencies_fields, of atom ?u ds b] by (auto split: if_splits)
  with u f show ?thesis by auto
qed






























subsection \<open>The update returns when the read functions do not read in a circle\<close>

lemma depsOf_mSet:
  "depsOf (mSet s a st) b = (if b = a then set (deps st) else depsOf s b)"
  by (simp add: depsOf_def mGet_mSet)







lemma setAdd_set: "set (setAdd ds a) = insert a (set ds)"
  by (auto simp: setAdd_def)










subsection \<open>A read records the atoms it got\<close>

text \<open>A map holds every key once; the engine keeps it so. On such a snapshot, a read of \<open>B\<close>
  whose read function is called, gets \<open>A\<close> and does not return a promise leaves \<open>B\<close> among
  the dependents of \<open>A\<close> (when it returns a promise, the dependencies are recorded only when
  the promise settles, lines 230-235).\<close>

lemma distinct_mSet: "distinct (mKeys s) \<Longrightarrow> distinct (mKeys (mSet s a st))"
  by (simp add: mKeys_def mSet_def distinct_update)

lemma mKeys_present: "a \<in> set (mKeys s) \<longleftrightarrow> mGet s a \<noteq> None"
  by (auto simp: mKeys_def mGet_def map_of_eq_None_iff)

lemma distinct_updateAtomState:
  "distinct (mKeys s) \<Longrightarrow> distinct (mKeys (updateAtomState atom s part pp))"
  by (simp add: updateAtomState_def Let_def distinct_mSet)

lemma distinct_dropStale:
  "distinct (mKeys s) \<Longrightarrow> distinct (mKeys (fst (dropStale atom as s ds)))"
  by (induction as arbitrary: s ds) (auto simp: distinct_mSet split: option.splits)

lemma distinct_addFresh:
  "distinct (mKeys s) \<Longrightarrow> distinct (mKeys (addFresh atom as s))"
  by (induction as arbitrary: s) (auto simp: distinct_mSet split: option.splits)

lemma distinct_replaceDependencies:
  "distinct (mKeys s) \<Longrightarrow> distinct (mKeys (replaceDependencies atom s ds))"
  using distinct_addFresh distinct_dropStale [of s atom "mKeys s" ds]
  by (auto simp: replaceDependencies_def split: prod.splits)

lemma distinct_finishRead:
  "distinct (mKeys s) \<Longrightarrow> finishRead d atom out s ds w = ((st, s1), w1) \<Longrightarrow> distinct (mKeys s1)"
  using finishRead_snapshot [of d atom out s ds w st s1 w1]
  by (auto simp: distinct_replaceDependencies distinct_updateAtomState split: if_splits)

lemma dropStale_untouched:
  "a \<notin> set as \<Longrightarrow> mGet (fst (dropStale atom as s ds)) a = mGet s a"
  by (induction as arbitrary: s ds) (auto simp: mGet_mSet split: option.splits)

lemma dropStale_records:
  "distinct as \<Longrightarrow> a \<in> set ds \<Longrightarrow>
     a \<in> set (snd (dropStale atom as s ds)) \<or> atom \<in> depsOf (fst (dropStale atom as s ds)) a"
proof (induction as arbitrary: s ds)
  case Nil
  then show ?case by simp
next
  case (Cons x xs)
  from Cons.prems have dx: "distinct xs" "x \<notin> set xs" by simp_all
  show ?case
  proof (cases "mGet s x")
    case None
    with Cons.IH [OF dx(1) Cons.prems(2), of s] show ?thesis by simp
  next
    case (Some xState)
    show ?thesis
    proof (cases "atom \<in> set (deps xState)")
      case False
      with Some Cons.IH [OF dx(1) Cons.prems(2), of s] show ?thesis by simp
    next
      case True
      show ?thesis
      proof (cases "x \<in> set ds")
        case False
        with Cons.prems(2) have "a \<noteq> x" by auto
        from Cons.IH [OF dx(1) Cons.prems(2),
            of "mSet s x (xState\<lparr>deps := setDelete (deps xState) atom\<rparr>)"] Some True False
        show ?thesis by simp
      next
        case inDs: True
        show ?thesis
        proof (cases "a = x")
          case True
          from dropStale_untouched [OF dx(2), of atom s "setDelete ds x"] Some \<open>atom \<in> set (deps xState)\<close>
          have "atom \<in> depsOf (fst (dropStale atom xs s (setDelete ds x))) x"
            by (simp add: depsOf_def)
          with Some \<open>atom \<in> set (deps xState)\<close> inDs True show ?thesis by simp
        next
          case False
          with Cons.prems(2) have "a \<in> set (setDelete ds x)" by (simp add: setDelete_def)
          from Cons.IH [OF dx(1) this, of s] Some \<open>atom \<in> set (deps xState)\<close> inDs
          show ?thesis by simp
        qed
      qed
    qed
  qed
qed

lemma addFresh_keeps:
  "atom \<in> depsOf s a \<Longrightarrow> atom \<in> depsOf (addFresh atom as s) a"
proof (induction as arbitrary: s)
  case Nil
  then show ?case by simp
next
  case (Cons x xs)
  show ?case
  proof (cases "mGet s x")
    case None
    with Cons show ?thesis by simp
  next
    case (Some xState)
    have "atom \<in> depsOf (mSet s x (xState\<lparr>deps := setAdd (deps xState) atom\<rparr>)) a"
      using Cons.prems Some by (auto simp: depsOf_mSet setAdd_def)
    from Cons.IH [OF this] Some show ?thesis by simp
  qed
qed

lemma addFresh_records:
  "a \<in> set as \<Longrightarrow> mGet s a \<noteq> None \<Longrightarrow> atom \<in> depsOf (addFresh atom as s) a"
proof (induction as arbitrary: s)
  case Nil
  then show ?case by simp
next
  case (Cons x xs)
  show ?case
  proof (cases "mGet s x")
    case None
    with Cons.prems have "a \<in> set xs" by auto
    from Cons.IH [OF this Cons.prems(2)] None show ?thesis by simp
  next
    case (Some xState)
    let ?s1 = "mSet s x (xState\<lparr>deps := setAdd (deps xState) atom\<rparr>)"
    show ?thesis
    proof (cases "a = x")
      case True
      have "atom \<in> depsOf ?s1 a"
        using True by (auto simp: depsOf_mSet setAdd_def)
      from addFresh_keeps [OF this] Some show ?thesis by simp
    next
      case False
      with Cons.prems have "a \<in> set xs" "mGet ?s1 a \<noteq> None" by (auto simp: mGet_mSet)
      from Cons.IH [OF this] Some show ?thesis by simp
    qed
  qed
qed

lemma replaceDependencies_records:
  assumes "distinct (mKeys s)" and "a \<in> set ds" and "mGet s a \<noteq> None"
  shows "atom \<in> depsOf (replaceDependencies atom s ds) a"
proof -
  obtain s1 ds1 where d: "dropStale atom (mKeys s) s ds = (s1, ds1)"
    by (metis surj_pair)
  from dropStale_records [OF assms(1,2), of atom s] d
  have 1: "a \<in> set ds1 \<or> atom \<in> depsOf s1 a" by simp
  from dropStale_fields [of atom "mKeys s" s ds a] d assms(3) have "mGet s1 a \<noteq> None"
    by (cases "mGet s1 a") auto
  with 1 addFresh_records [of a ds1 s1 atom] addFresh_keeps [of atom s1 a ds1] d
  show ?thesis
    by (auto simp: replaceDependencies_def)
qed

lemma finishRead_records:
  assumes dist: "distinct (mKeys s)" and out: "out \<noteq> ReturnedPromise"
    and fin: "finishRead d atom out s ds w = ((st, s1), w1)"
    and a: "a \<in> set ds" "mGet s a \<noteq> None"
  shows "atom \<in> depsOf s1 a"
proof -
  let ?u = "updateAtomState atom s (readPartial d atom out w) None"
  from finishRead_snapshot [OF fin] out have s1: "s1 = replaceDependencies atom ?u ds"
    by simp
  have "mGet ?u a \<noteq> None"
    using a(2) by (simp add: mGet_updateAtomState)
  from replaceDependencies_records [OF distinct_updateAtomState [OF dist] a(1) this]
  show ?thesis unfolding s1 .
qed

lemma got_runRead:
  assumes rec: "\<And>a s w st s' w'. distinct (mKeys s) \<Longrightarrow> rec a s w = Some ((st, s'), w') \<Longrightarrow>
                  distinct (mKeys s') \<and> mGet s' a \<noteq> None \<and>
                  (\<forall>b. mGet s b \<noteq> None \<longrightarrow> mGet s' b \<noteq> None)"
  shows "distinct (mKeys s) \<Longrightarrow> runRead d rec atom body s ds w = Some (out, s', ds', w') \<Longrightarrow>
           distinct (mKeys s') \<and> (\<forall>b. mGet s b \<noteq> None \<longrightarrow> mGet s' b \<noteq> None) \<and>
           (\<forall>a \<in> set ds'. a \<in> set ds \<or> a = atom \<or> mGet s' a \<noteq> None)"
proof (induction body arbitrary: s ds w)
  case (Get a k)
  show ?case
  proof (cases "a = atom")
    case True
    with Get.prems Get.IH [OF rangeI Get.prems(1)] show ?thesis
      by (fastforce simp: setAdd_set split: option.splits)
  next
    case False
    with Get.prems obtain aState s1 w1 where r: "rec a s w = Some ((aState, s1), w1)"
      by (auto split: option.splits)
    from rec [OF Get.prems(1) r] have d1: "distinct (mKeys s1)" and p1: "mGet s1 a \<noteq> None"
      and k1: "\<And>b. mGet s b \<noteq> None \<Longrightarrow> mGet s1 b \<noteq> None"
      by simp_all
    show ?thesis
    proof (cases "readE aState \<noteq> None \<or> readP aState \<noteq> None")
      case True
      with Get.prems(2) False r d1 p1 k1 show ?thesis
        by (auto simp: setAdd_set split: option.splits)
    next
      case None: False
      with Get.prems(2) False r have
        run: "runRead d rec atom (k (val aState)) s1 (setAdd ds a) w1 = Some (out, s', ds', w')"
        by (auto split: option.splits)
      from Get.IH [OF rangeI d1 run] p1 k1 show ?thesis
        by (auto simp: setAdd_set)
    qed
  qed
qed auto

lemma got_readAtomState:
  "distinct (mKeys s) \<Longrightarrow> readAtomState n d cacheOpt atom s w = Some ((st, s'), w') \<Longrightarrow>
     distinct (mKeys s') \<and> mGet s' atom \<noteq> None \<and> (\<forall>b. mGet s b \<noteq> None \<longrightarrow> mGet s' b \<noteq> None)"
proof (induction n arbitrary: atom s w st s' w')
  case 0
  then show ?case by simp
next
  case (Suc n)
  show ?case
  proof (cases "case cacheOpt of None \<Rightarrow> None
                | Some cache \<Rightarrow>
                    (case mGet s atom of
                       Some atomState \<Rightarrow> Some (atomState, s)
                     | None \<Rightarrow> (case mGet cache atom of
                                  Some atomState \<Rightarrow> Some (atomState, mSet s atom atomState)
                                | None \<Rightarrow> None))")
    case (Some r)
    with Suc.prems show ?thesis
      by (auto simp: distinct_mSet mGet_mSet split: option.splits)
  next
    case None
    with Suc.prems(2) obtain out s1 ds1 w1 where
      run: "runRead d (readAtomState n d cacheOpt) atom (readOf d atom) s [] w = Some (out, s1, ds1, w1)"
      and fin: "finishRead d atom out s1 ds1 w1 = ((st, s'), w')"
      by (auto split: option.splits)
    have "distinct (mKeys s1) \<and> (\<forall>b. mGet s b \<noteq> None \<longrightarrow> mGet s1 b \<noteq> None) \<and>
           (\<forall>a \<in> set ds1. a \<in> set [] \<or> a = atom \<or> mGet s1 a \<noteq> None)"
    proof (rule got_runRead [where rec = "readAtomState n d cacheOpt", OF _ Suc.prems(1) run])
      fix a t u st t' u'
      assume "distinct (mKeys t)" "readAtomState n d cacheOpt a t u = Some ((st, t'), u')"
      then show "distinct (mKeys t') \<and> mGet t' a \<noteq> None \<and>
                   (\<forall>b. mGet t b \<noteq> None \<longrightarrow> mGet t' b \<noteq> None)"
        by (rule Suc.IH)
    qed
    then have "distinct (mKeys s1)" "\<And>b. mGet s b \<noteq> None \<Longrightarrow> mGet s1 b \<noteq> None"
      by simp_all
    with distinct_finishRead [OF _ fin] finishRead_present [OF fin] show ?thesis
      by auto
  qed
qed

lemma read_records_dependent:
  assumes dist: "distinct (mKeys s)"
    and miss: "\<forall>cache. cacheOpt = Some cache \<longrightarrow> mGet s B = None \<and> mGet cache B = None"
    and run: "runRead d (readAtomState n d cacheOpt) B (readOf d B) s [] w = Some (out, s1, ds, w1)"
    and out: "out \<noteq> ReturnedPromise" and got: "A \<in> set ds" "A \<noteq> B"
  shows "\<exists>st s' w'. readAtomState (Suc n) d cacheOpt B s w = Some ((st, s'), w') \<and>
           B \<in> depsOf s' A \<and> mGet s' B = Some st \<and> mGet s' A \<noteq> None"
proof -
  obtain st s' w' where fin: "finishRead d B out s1 ds w1 = ((st, s'), w')"
    by (metis surj_pair)
  have rd: "readAtomState (Suc n) d cacheOpt B s w = Some ((st, s'), w')"
    using miss run fin by (cases cacheOpt) auto
  have "distinct (mKeys s1) \<and> (\<forall>b. mGet s b \<noteq> None \<longrightarrow> mGet s1 b \<noteq> None) \<and>
        (\<forall>a \<in> set ds. a \<in> set [] \<or> a = B \<or> mGet s1 a \<noteq> None)"
  proof (rule got_runRead [where rec = "readAtomState n d cacheOpt", OF _ dist run])
    fix a t u st t' u'
    assume "distinct (mKeys t)" "readAtomState n d cacheOpt a t u = Some ((st, t'), u')"
    then show "distinct (mKeys t') \<and> mGet t' a \<noteq> None \<and>
                 (\<forall>b. mGet t b \<noteq> None \<longrightarrow> mGet t' b \<noteq> None)"
      by (rule got_readAtomState)
  qed
  with got have d1: "distinct (mKeys s1)" and pA: "mGet s1 A \<noteq> None"
    by auto
  from finishRead_records [OF d1 out fin got(1) pA] finishRead_present [OF fin] pA rd
  show ?thesis by auto
qed


lemma distinct_reachable: "reachable d s h \<Longrightarrow> distinct (mKeys s)"
proof (induction rule: reachable.induct)
  case initial
  show ?case by (simp add: initialState_def mCreate_def mKeys_def)
next
  case (finished s h atom out ds w st s' w')
  then show ?case by (simp add: distinct_finishRead)
next
  case (merged s h t k)
  then show ?case by (simp add: mKeys_def mMerge_def distinct_merge)
next
  case (evicted s h atom)
  then show ?case by (simp add: mKeys_def mDel_def distinct_delete)
next
  case (dependentAdded s h atom dependent)
  then show ?case by (auto simp: addDependent_def distinct_mSet split: option.splits)
qed (simp_all add: distinct_mSet distinct_updateAtomState distinct_replaceDependencies
       clearWriteP_def onReadResolved_def onReadRejected_def)








end
